theory Spec2Isabelle
  imports Complex_Main "HOL-Library.Sublist"
begin

section \<open>Python strings\<close>

text \<open>
  A Python \<open>str\<close> is a \<open>string\<close> (a list of characters with codes below 256); the model is
  exact on such text, for the white space that \<open>strip\<close> removes and the letters that
  \<open>lower\<close> maps.
  \<open>py_in sub s\<close> is Python's \<open>sub in s\<close>, \<open>py_lower\<close> is \<open>str.lower\<close>,
  \<open>py_strip\<close> is \<open>str.strip()\<close> and \<open>py_or_empty\<close> is \<open>x or ''\<close> on an optional string.
\<close>

fun py_startswith :: "string \<Rightarrow> string \<Rightarrow> bool" where
  "py_startswith s [] = True"
| "py_startswith [] (p # ps) = False"
| "py_startswith (c # cs) (p # ps) = (c = p \<and> py_startswith cs ps)"

fun py_in :: "string \<Rightarrow> string \<Rightarrow> bool" where
  "py_in sub [] = (sub = [])"
| "py_in sub (c # cs) = (py_startswith (c # cs) sub \<or> py_in sub cs)"

definition py_endswith :: "string \<Rightarrow> string \<Rightarrow> bool" where
  "py_endswith s p = py_startswith (rev s) (rev p)"

definition lower_char :: "char \<Rightarrow> char" where
  "lower_char c =
     (let n = (of_char c :: nat) in
      if (65 \<le> n \<and> n \<le> 90) \<or> (192 \<le> n \<and> n \<le> 222 \<and> n \<noteq> 215) then char_of (n + 32) else c)"

definition py_lower :: "string \<Rightarrow> string" where
  "py_lower s = map lower_char s"

definition is_space :: "char \<Rightarrow> bool" where
  "is_space c =
     (let n = (of_char c :: nat) in
      (9 \<le> n \<and> n \<le> 13) \<or> (28 \<le> n \<and> n \<le> 32) \<or> n = 133 \<or> n = 160)"

definition py_strip :: "string \<Rightarrow> string" where
  "py_strip s = rev (dropWhile is_space (rev (dropWhile is_space s)))"

definition py_or_empty :: "string option \<Rightarrow> string" where
  "py_or_empty v = (case v of None \<Rightarrow> [] | Some s \<Rightarrow> s)"

definition py_join_space :: "string list \<Rightarrow> string" where
  "py_join_space xs = (case xs of [] \<Rightarrow> [] | y # ys \<Rightarrow> foldl (\<lambda>acc z. acc @ '' '' @ z) y ys)"

definition any_in :: "string list \<Rightarrow> string \<Rightarrow> bool" where
  "any_in ks s = list_ex (\<lambda>k. py_in k s) ks"

section \<open>normalizer\_utils.py: post-type classification\<close>

definition CANON_POST_TYPES :: "string list" where
  "CANON_POST_TYPES = [''text'', ''article'', ''image'', ''document'', ''video'']"

definition DISTRIBUTION_LABELS :: "string list" where
  "DISTRIBUTION_LABELS = [''organic'', ''sponsored'', ''paid'', ''boosted'', ''promoted'']"

text \<open>
  The cascade of \<open>normalize_post_type\<close> after the raw label and the text have been prepared
  (lines 15 to 20 of normalizer\_utils.py).
\<close>

definition classify :: "string \<Rightarrow> string \<Rightarrow> string" where
  "classify raw text =
     (if py_in ''video'' raw \<or> py_in ''video'' text then ''video''
      else if any_in [''image'', ''photo'', ''picture''] raw
              \<or> any_in [''image'', ''photo'', ''picture'', ''jpg'', ''jpeg'', ''png''] text
        then ''image''
      else if any_in [''document'', ''pdf'', ''doc''] raw
              \<or> any_in [''document'', ''pdf'', ''.pdf'', ''.ppt'', ''.pptx'', ''.doc'', ''.docx'',
                          ''.slideshare''] text
        then ''document''
      else if any_in [''article'', ''link''] raw \<or> py_in ''/pulse/'' text then ''article''
      else if py_in ''text'' raw \<or> py_in ''status'' raw then ''text''
      else if py_in ''http'' text then ''article'' else ''text'')"

definition normalize_post_type ::
  "string option \<Rightarrow> string option \<Rightarrow> string option \<Rightarrow> string option \<Rightarrow> string" where
  "normalize_post_type raw_type content url title =
     (let raw0 = py_lower (py_strip (py_or_empty raw_type));
          text = py_lower (py_join_space [py_or_empty content, py_or_empty url, py_or_empty title]);
          raw = (if raw0 \<in> set DISTRIBUTION_LABELS then [] else raw0)
      in classify raw text)"

section \<open>export\_ingester.py: the schema mapper\<close>

text \<open>
  \<open>find_column(df, candidates)\<close>. The argument \<open>headers\<close> is the list \<open>str(c)\<close> of the
  grid's column labels, left to right. \<open>py_index\<close> is \<open>list.index\<close>, called only on a member.
\<close>

fun py_index :: "'a list \<Rightarrow> 'a \<Rightarrow> nat" where
  "py_index [] x = 0"
| "py_index (y # ys) x = (if y = x then 0 else Suc (py_index ys x))"

text \<open>The inner loop \<open>for i, c in enumerate(lower): if nl in c: return cols[i]\<close>.\<close>

fun first_containing :: "string \<Rightarrow> (string \<times> string) list \<Rightarrow> string option" where
  "first_containing nl [] = None"
| "first_containing nl ((col, c) # rest) =
     (if py_in nl c then Some col else first_containing nl rest)"

text \<open>The outer loop \<open>for name in candidates\<close>, with its two early returns.\<close>

fun find_column_loop :: "string list \<Rightarrow> string list \<Rightarrow> string list \<Rightarrow> string option" where
  "find_column_loop cols lower [] = None"
| "find_column_loop cols lower (name # names) =
     (let nl = py_lower name in
      if nl \<in> set lower then Some (cols ! py_index lower nl)
      else (case first_containing nl (zip cols lower) of
              Some col \<Rightarrow> Some col
            | None \<Rightarrow> find_column_loop cols lower names))"

definition find_column :: "string list \<Rightarrow> string list \<Rightarrow> string option" where
  "find_column headers candidates =
     (let cols = map py_strip headers; lower = map py_lower cols
      in find_column_loop cols lower candidates)"

text \<open>
  The same function as the specification words it: per candidate, the exact
  case-insensitive match if there is one, else the leftmost header containing the candidate;
  over the candidates, the first one that finds a column.
\<close>

definition candidate_match :: "string list \<Rightarrow> string \<Rightarrow> string option" where
  "candidate_match cols name =
     (case find (\<lambda>c. py_lower c = py_lower name) cols of
        Some c \<Rightarrow> Some c
      | None \<Rightarrow> find (\<lambda>c. py_in (py_lower name) (py_lower c)) cols)"

definition find_column_spec :: "string list \<Rightarrow> string list \<Rightarrow> string option" where
  "find_column_spec headers candidates =
     (case List.map_filter (candidate_match (map py_strip headers)) candidates of
        [] \<Rightarrow> None
      | col # _ \<Rightarrow> Some col)"

definition header_matches :: "string list \<Rightarrow> string \<Rightarrow> bool" where
  "header_matches headers name =
     list_ex (\<lambda>h. py_in (py_lower name) (py_lower (py_strip h))) headers"

section \<open>Python numbers and values\<close>

text \<open>
  A Python \<open>float\<close> is modelled by \<open>pyfloat\<close>: a finite value is the rational it stands
  for, and the three non-finite values are constructors of their own. Comparisons with \<open>NaN\<close>
  are false, as in Python. \<open>py_round nd x\<close> rounds a rational to the nearest multiple of
  \<open>10^-nd\<close>, ties to even. The record normalizer is modelled with this decimal arithmetic on
  the values as written; the reconciliation engine, whose rates are rounded at the sixth
  decimal of a binary quotient, is modelled at binary64 precision (below).
\<close>

datatype pyfloat = Fin rat | PosInf | NegInf | NaN

fun fl_less :: "pyfloat \<Rightarrow> pyfloat \<Rightarrow> bool" where
  "fl_less (Fin x) (Fin y) = (x < y)"
| "fl_less NaN b = False"
| "fl_less a NaN = False"
| "fl_less PosInf b = False"
| "fl_less a PosInf = True"
| "fl_less NegInf b = (b \<noteq> NegInf)"
| "fl_less a NegInf = False"

definition fl_le :: "pyfloat \<Rightarrow> pyfloat \<Rightarrow> bool" where
  "fl_le a b = (a \<noteq> NaN \<and> b \<noteq> NaN \<and> (a = b \<or> fl_less a b))"

text \<open>\<open>min(a, b)\<close> of two floats: the first argument unless the second is smaller.\<close>

definition py_min :: "pyfloat \<Rightarrow> pyfloat \<Rightarrow> pyfloat" where
  "py_min a b = (if fl_less b a then b else a)"

definition round_half_even :: "rat \<Rightarrow> int" where
  "round_half_even y =
     (let f = \<lfloor>y\<rfloor>; d = y - of_int f in
      if d < 1 / 2 then f else if 1 / 2 < d then f + 1 else if even f then f else f + 1)"

definition py_round :: "nat \<Rightarrow> rat \<Rightarrow> rat" where
  "py_round nd x = of_int (round_half_even (x * 10 ^ nd)) / 10 ^ nd"

fun fl_round :: "nat \<Rightarrow> pyfloat \<Rightarrow> pyfloat" where
  "fl_round nd (Fin x) = Fin (py_round nd x)"
| "fl_round nd f = f"

text \<open>\<open>int(x)\<close> of a finite float truncates towards zero.\<close>

definition py_trunc :: "rat \<Rightarrow> int" where
  "py_trunc x = (if 0 \<le> x then \<lfloor>x\<rfloor> else \<lceil>x\<rceil>)"

text \<open>
  The values a record field or a grid cell holds: \<open>None\<close>, an \<open>int\<close>, a \<open>float\<close>, a \<open>str\<close>
  or a list of strings (the hashtags and mentions). A \<open>dict\<close> is a map from keys to values;
  \<open>py_get d k\<close> is \<open>d.get(k)\<close>.
\<close>

datatype pyval = PNone | PInt int | PFloat pyfloat | PStr string | PList "string list"

type_synonym pydict = "string \<rightharpoonup> pyval"

definition py_get :: "pydict \<Rightarrow> string \<Rightarrow> pyval" where
  "py_get d k = (case d k of None \<Rightarrow> PNone | Some v \<Rightarrow> v)"

fun py_truthy :: "pyval \<Rightarrow> bool" where
  "py_truthy PNone = False"
| "py_truthy (PInt n) = (n \<noteq> 0)"
| "py_truthy (PFloat f) = (f \<noteq> Fin 0)"
| "py_truthy (PStr s) = (s \<noteq> [])"
| "py_truthy (PList l) = (l \<noteq> [])"

subsection \<open>Reading numbers from text\<close>

text \<open>
  \<open>py_int_of_str\<close> is \<open>int(s)\<close> and \<open>py_float_of_str\<close> is the decimal value that
  \<open>float(s)\<close> reads; \<open>None\<close> is \<open>ValueError\<close>. Both skip surrounding whitespace and take an optional sign; a run of digits
  may hold single underscores between digits. \<open>float\<close> also reads a fraction, an exponent and
  the words \<open>inf\<close>, \<open>infinity\<close> and \<open>nan\<close> in any case.
\<close>

definition is_digit :: "char \<Rightarrow> bool" where
  "is_digit c = (let n = (of_char c :: nat) in 48 \<le> n \<and> n \<le> 57)"

definition digit_val :: "char \<Rightarrow> nat" where
  "digit_val c = of_char c - 48"

definition nat_of_digits :: "string \<Rightarrow> nat" where
  "nat_of_digits ds = foldl (\<lambda>a c. 10 * a + digit_val c) 0 ds"

fun us_digits :: "string \<Rightarrow> string option" where
  "us_digits [] = None"
| "us_digits [c] = (if is_digit c then Some [c] else None)"
| "us_digits (c # d # rest) =
     (if \<not> is_digit c then None
      else if d = CHR ''_'' then map_option (Cons c) (us_digits rest)
      else map_option (Cons c) (us_digits (d # rest)))"

definition split_sign :: "string \<Rightarrow> bool \<times> string" where
  "split_sign s =
     (case s of
        [] \<Rightarrow> (False, [])
      | c # cs \<Rightarrow> if c = CHR ''-'' then (True, cs) else if c = CHR ''+'' then (False, cs) else (False, s))"

definition py_int_of_str :: "string \<Rightarrow> int option" where
  "py_int_of_str s =
     (let (neg, body) = split_sign (py_strip s) in
      map_option (\<lambda>ds. if neg then - int (nat_of_digits ds) else int (nat_of_digits ds))
        (us_digits body))"

definition is_dus :: "char \<Rightarrow> bool" where
  "is_dus c = (is_digit c \<or> c = CHR ''_'')"

text \<open>A digit run that may be empty: \<open>Some []\<close> when empty, \<open>None\<close> when malformed.\<close>

definition opt_digits :: "string \<Rightarrow> string option" where
  "opt_digits ds = (if ds = [] then Some [] else us_digits ds)"

text \<open>The exponent part: empty, or \<open>e\<close> or \<open>E\<close>, an optional sign and digits.\<close>

definition parse_exponent :: "string \<Rightarrow> int option" where
  "parse_exponent r =
     (case r of
        [] \<Rightarrow> Some 0
      | c # cs \<Rightarrow>
          if c = CHR ''e'' \<or> c = CHR ''E'' then
            (let (neg, body) = split_sign cs in
             map_option (\<lambda>ds. if neg then - int (nat_of_digits ds) else int (nat_of_digits ds))
               (us_digits body))
          else None)"

definition pow10 :: "int \<Rightarrow> rat" where
  "pow10 e = (if 0 \<le> e then 10 ^ nat e else 1 / 10 ^ nat (- e))"

definition parse_decimal :: "string \<Rightarrow> rat option" where
  "parse_decimal body =
     (let ip = takeWhile is_dus body;
          r1 = dropWhile is_dus body;
          dot = (r1 \<noteq> [] \<and> hd r1 = CHR ''.'');
          fp = (if dot then takeWhile is_dus (tl r1) else []);
          r2 = (if dot then dropWhile is_dus (tl r1) else r1)
      in if ip = [] \<and> fp = [] then None
         else (case (opt_digits ip, opt_digits fp, parse_exponent r2) of
                 (Some i, Some f, Some e) \<Rightarrow>
                   Some ((of_nat (nat_of_digits i) + of_nat (nat_of_digits f) / 10 ^ length f)
                         * pow10 e)
               | _ \<Rightarrow> None))"

definition py_float_of_str :: "string \<Rightarrow> pyfloat option" where
  "py_float_of_str s =
     (let (neg, body) = split_sign (py_strip s); w = py_lower body in
      if w = ''inf'' \<or> w = ''infinity'' then Some (if neg then NegInf else PosInf)
      else if w = ''nan'' then Some NaN
      else map_option (\<lambda>x. Fin (if neg then - x else x)) (parse_decimal body))"

definition py_remove :: "char \<Rightarrow> string \<Rightarrow> string" where
  "py_remove c s = filter (\<lambda>d. d \<noteq> c) s"

subsection \<open>Binary64 arithmetic\<close>

text \<open>
  \<open>to_double x\<close> is the binary64 value nearest to the rational \<open>x\<close>, ties to the even
  significand: 53 significant bits, exponents from \<open>-1022\<close> (below which the spacing stays
  \<open>2^-1074\<close>) to \<open>1023\<close>, and an infinity when the rounded value reaches \<open>2^1024\<close>.
  \<open>bit_length\<close> is \<open>int.bit_length\<close> on a positive integer and \<open>floor_log2 x\<close> is the
  exponent \<open>e\<close> with \<open>2^e \<le> x < 2^(e+1)\<close>, for \<open>x > 0\<close>.
  \<open>dbl_round nd f\<close> is \<open>round(f, nd)\<close> on a float: the decimal rounding of the exact value
  of \<open>f\<close>, read back as a float. \<open>int_truediv a b\<close> is \<open>a / b\<close> on two \<open>int\<close>s, the
  correctly rounded quotient, \<open>OverflowError\<close> when it is too large for a float, and
  \<open>dbl_times\<close> is the product of two finite floats.
\<close>

function bit_length :: "int \<Rightarrow> int" where
  "bit_length n = (if n \<le> 0 then 0 else 1 + bit_length (n div 2))"
  by pat_completeness auto
termination
  by (relation "measure nat") auto

definition two_pow :: "int \<Rightarrow> rat" where
  "two_pow e = (if 0 \<le> e then 2 ^ nat e else 1 / 2 ^ nat (- e))"

definition floor_log2 :: "rat \<Rightarrow> int" where
  "floor_log2 x =
     (let (p, q) = quotient_of x;
          d = bit_length p - bit_length q
      in if two_pow d \<le> x then d else d - 1)"

definition to_double :: "rat \<Rightarrow> pyfloat" where
  "to_double x =
     (if x = 0 then Fin 0
      else
        let e = max (floor_log2 \<bar>x\<bar>) (- 1022);
            u = two_pow (e - 52);
            m = round_half_even (x / u)
        in if 1023 < e \<or> (e = 1023 \<and> \<bar>m\<bar> = 2 ^ 53) then (if 0 < x then PosInf else NegInf)
           else Fin (of_int m * u))"

fun dbl_round :: "nat \<Rightarrow> pyfloat \<Rightarrow> pyfloat" where
  "dbl_round nd (Fin x) = to_double (py_round nd x)"
| "dbl_round nd f = f"

datatype py_error = KeyError | TypeError | OverflowError | ZeroDivisionError

definition int_truediv :: "int \<Rightarrow> int \<Rightarrow> py_error + rat" where
  "int_truediv a b =
     (if b = 0 then Inl ZeroDivisionError
      else case to_double (of_int a / of_int b) of
             Fin r \<Rightarrow> Inr r
           | _ \<Rightarrow> Inl OverflowError)"

definition dbl_times :: "rat \<Rightarrow> rat \<Rightarrow> pyfloat" where
  "dbl_times x y = to_double (x * y)"

section \<open>supabase\_io.py: the reconciliation engine\<close>

definition NUMERIC_FIELDS :: "string list" where
  "NUMERIC_FIELDS = [''impressions'', ''clicks'', ''likes'', ''comments'', ''shares'', ''reach'']"

text \<open>
  \<open>_safe_int(v)\<close>: \<open>int(v or 0)\<close>, on any exception \<open>int(float(str(v).replace(',', '')))\<close>,
  on any exception \<open>0\<close>. A float is truncated towards zero; a non-finite float and a
  non-empty list fail both conversions; a text that is not an integer is read as a float,
  which is infinite (and fails) when the number is too large.
\<close>

fun u_safe_int :: "pyval \<Rightarrow> int" where
  "u_safe_int PNone = 0"
| "u_safe_int (PInt n) = n"
| "u_safe_int (PFloat (Fin x)) = py_trunc x"
| "u_safe_int (PFloat f) = 0"
| "u_safe_int (PStr s) =
     (if s = [] then 0
      else (case py_int_of_str s of
              Some n \<Rightarrow> n
            | None \<Rightarrow> (case py_float_of_str (py_remove CHR '','' s) of
                         Some (Fin x) \<Rightarrow> (case to_double x of Fin y \<Rightarrow> py_trunc y | _ \<Rightarrow> 0)
                       | _ \<Rightarrow> 0)))"
| "u_safe_int (PList l) = 0"

text \<open>
  The two rates \<open>_recompute_rates\<close> derives from the counts (lines 27 and 28):
  \<open>round((n / impressions) * 100.0, 6)\<close> when \<open>impressions > 0\<close>, else \<open>0.0\<close>. The division
  of the two integers raises \<open>OverflowError\<close> when the quotient is too large for a float.
\<close>

definition rate_ctr :: "int \<Rightarrow> int \<Rightarrow> py_error + pyfloat" where
  "rate_ctr c i =
     (if 0 < i
      then (case int_truediv c i of
              Inl e \<Rightarrow> Inl e
            | Inr r \<Rightarrow> Inr (dbl_round 6 (dbl_times r 100)))
      else Inr (Fin 0))"

definition rate_er :: "int \<Rightarrow> int \<Rightarrow> int \<Rightarrow> int \<Rightarrow> int \<Rightarrow> py_error + pyfloat" where
  "rate_er l m s c i =
     (if 0 < i
      then (case int_truediv (l + m + s + c) i of
              Inl e \<Rightarrow> Inl e
            | Inr r \<Rightarrow> Inr (dbl_round 6 (dbl_times r 100)))
      else Inr (Fin 0))"

definition u_recompute_rates :: "pydict \<Rightarrow> py_error + pydict" where
  "u_recompute_rates rec =
     (let i = u_safe_int (py_get rec ''impressions'');
          c = u_safe_int (py_get rec ''clicks'');
          l = u_safe_int (py_get rec ''likes'');
          m = u_safe_int (py_get rec ''comments'');
          s = u_safe_int (py_get rec ''shares'')
      in case rate_ctr c i of
           Inl e \<Rightarrow> Inl e
         | Inr rc \<Rightarrow>
             (case rate_er l m s c i of
                Inl e \<Rightarrow> Inl e
              | Inr er \<Rightarrow>
                  Inr (rec(''ctr'' \<mapsto> PFloat rc,
                           ''engagement_rate'' \<mapsto> PFloat (py_min er (Fin 100))))))"

text \<open>
  The post table is the list of its rows. \<open>select_in\<close> is the query of lines 58 to 61: the
  rows whose \<open>post_id\<close> is in the batch, with the selected columns. \<open>chunks n xs\<close> are the
  slices \<open>xs[i:i+n]\<close> for \<open>i\<close> in \<open>range(0, len(xs), n)\<close>.
\<close>

definition SELECTED :: "string list" where
  "SELECTED = ''post_id'' # NUMERIC_FIELDS"

definition select_in :: "pydict list \<Rightarrow> pyval list \<Rightarrow> pydict list" where
  "select_in table batch =
     map (\<lambda>r. r |` set SELECTED) (filter (\<lambda>r. py_get r ''post_id'' \<in> set batch) table)"

function chunks :: "nat \<Rightarrow> 'a list \<Rightarrow> 'a list list" where
  "chunks n xs = (if n = 0 \<or> xs = [] then [] else take n xs # chunks n (drop n xs))"
  by pat_completeness auto
termination
  by (relation "measure (\<lambda>(n, xs). length xs)") auto

text \<open>Step 1 of \<open>upsert_posts\<close>: the baseline rows of the ids, looked up 1000 at a time.\<close>

definition add_rows :: "pydict list \<Rightarrow> pyval set \<times> (pyval \<rightharpoonup> pydict) \<Rightarrow> pyval set \<times> (pyval \<rightharpoonup> pydict)" where
  "add_rows rows st =
     foldl (\<lambda>(ids, m) r. (insert (py_get r ''post_id'') ids, m(py_get r ''post_id'' \<mapsto> r))) st rows"

definition lookup_existing :: "pydict list \<Rightarrow> pyval list \<Rightarrow> pyval set \<times> (pyval \<rightharpoonup> pydict)" where
  "lookup_existing table ids =
     foldl (\<lambda>st batch. add_rows (select_in table batch) st) ({}, Map.empty) (chunks 1000 ids)"

text \<open>
  The merge of an existing record under the policy \<open>max\<close> (lines 74 to 77): \<open>merge_field\<close>
  is the assignment \<open>q[f] = max(_safe_int(base.get(f)), _safe_int(q.get(f)))\<close>, run for
  every \<open>f\<close> of \<open>NUMERIC_FIELDS\<close>, before \<open>_recompute_rates(q)\<close>. \<open>update_record\<close> is the
  body of the branch for an existing id (lines 73 to 78): the merge under \<open>max\<close>, the
  incoming record as it is under any other policy.
\<close>

definition merge_field :: "pydict \<Rightarrow> pydict \<Rightarrow> string \<Rightarrow> pydict" where
  "merge_field base q f = q(f \<mapsto> PInt (max (u_safe_int (py_get base f)) (u_safe_int (py_get q f))))"

definition merge_max :: "pydict \<Rightarrow> pydict \<Rightarrow> py_error + pydict" where
  "merge_max base q = u_recompute_rates (foldl (merge_field base) q NUMERIC_FIELDS)"

definition update_record ::
  "string \<Rightarrow> (pyval \<rightharpoonup> pydict) \<Rightarrow> pyval \<Rightarrow> pydict \<Rightarrow> py_error + pydict" where
  "update_record policy rows pid q =
     (if policy = ''max''
      then merge_max (case rows pid of None \<Rightarrow> Map.empty | Some b \<Rightarrow> b) q
      else Inr q)"

text \<open>
  Step 2: the loop over the posts; \<open>pop_date_collected p\<close> is the copy \<open>q\<close> after
  \<open>q.pop("date_collected", None)\<close>. \<open>p["post_id"]\<close> raises \<open>KeyError\<close> on a record without
  the key, the membership test raises \<open>TypeError\<close> on an unhashable id (a list), and the
  merge raises what \<open>_recompute_rates\<close> raises. The first post that raises ends the run.
\<close>

definition pop_date_collected :: "pydict \<Rightarrow> pydict" where
  "pop_date_collected p = p(''date_collected'' := None)"

fun split_posts ::
  "string \<Rightarrow> pyval set \<Rightarrow> (pyval \<rightharpoonup> pydict) \<Rightarrow> pydict list \<Rightarrow> py_error + (pydict list \<times> pydict list)" where
  "split_posts policy ids rows [] = Inr ([], [])"
| "split_posts policy ids rows (p # ps) =
     (let q = pop_date_collected p in
      case p ''post_id'' of
        None \<Rightarrow> Inl KeyError
      | Some (PList l) \<Rightarrow> Inl TypeError
      | Some pid \<Rightarrow>
          if pid \<in> ids then
            (case update_record policy rows pid q of
               Inl e \<Rightarrow> Inl e
             | Inr u \<Rightarrow>
                 (case split_posts policy ids rows ps of
                    Inl e \<Rightarrow> Inl e
                  | Inr (new_posts, update_posts) \<Rightarrow> Inr (new_posts, u # update_posts)))
          else
            (case split_posts policy ids rows ps of
               Inl e \<Rightarrow> Inl e
             | Inr (new_posts, update_posts) \<Rightarrow> Inr (q # new_posts, update_posts)))"

text \<open>
  Steps 3 and 4: the writes, in the order the client receives them. A write that raises
  ends the run there, and the calls made up to it are a prefix of this list.
\<close>

datatype db_call = Insert "pydict list" | Upsert "pydict list"

definition upsert_posts ::
  "string \<Rightarrow> string \<Rightarrow> pydict list \<Rightarrow> pydict list \<Rightarrow> py_error + db_call list" where
  "upsert_posts policy company_id table posts0 =
     (if posts0 = [] then Inr []
      else
        let posts = map (\<lambda>p. p(''company_id'' \<mapsto> PStr company_id)) posts0;
            ids = map (\<lambda>p. py_get p ''post_id'') (filter (\<lambda>p. py_truthy (py_get p ''post_id'')) posts);
            (existing_ids, existing_rows) = lookup_existing table ids
        in case split_posts policy existing_ids existing_rows posts of
             Inl e \<Rightarrow> Inl e
           | Inr (new_posts, update_posts) \<Rightarrow>
               Inr (map Insert (chunks 100 new_posts) @ map Upsert (chunks 100 update_posts)))"

fun inserted :: "db_call list \<Rightarrow> pydict list" where
  "inserted [] = []"
| "inserted (Insert b # cs) = b @ inserted cs"
| "inserted (Upsert b # cs) = inserted cs"

fun upserted :: "db_call list \<Rightarrow> pydict list" where
  "upserted [] = []"
| "upserted (Insert b # cs) = upserted cs"
| "upserted (Upsert b # cs) = b @ upserted cs"

fun batch_of :: "db_call \<Rightarrow> pydict list" where
  "batch_of (Insert b) = b"
| "batch_of (Upsert b) = b"

text \<open>
  \<open>written res f\<close>: the values of the field \<open>f\<close> in the records a run sent by upsert, in
  order (none when the run raised). \<open>merged base p f\<close>: the larger of the persisted and the
  incoming value of \<open>f\<close>, each as \<open>_safe_int\<close> reads it. \<open>small_counts d\<close>: every tracked
  count of \<open>d\<close> is below \<open>2^1000\<close> in absolute value.
\<close>

definition written :: "py_error + db_call list \<Rightarrow> string \<Rightarrow> pyval list" where
  "written res f = (case res of Inl e \<Rightarrow> [] | Inr calls \<Rightarrow> map (\<lambda>q. py_get q f) (upserted calls))"

definition merged :: "pydict \<Rightarrow> pydict \<Rightarrow> string \<Rightarrow> int" where
  "merged base p f = max (u_safe_int (py_get base f)) (u_safe_int (py_get p f))"

definition small_counts :: "pydict \<Rightarrow> bool" where
  "small_counts d = list_all (\<lambda>f. \<bar>u_safe_int (py_get d f)\<bar> < 2 ^ 1000) NUMERIC_FIELDS"

section \<open>export\_ingester.py: the record normalizer\<close>

text \<open>
  \<open>clean_rate(value)\<close>. \<open>None\<close> and a float \<open>NaN\<close> give \<open>0.0\<close>. A number is read back
  from its own \<open>str\<close>, which never ends in a percent sign, so it takes the bare branch with
  its own value. \<open>scale_rate val\<close> is
  \<open>round(val * 100.0, 6) if 0 < val < 1 else round(val, 6)\<close>.
\<close>

fun fl_times :: "pyfloat \<Rightarrow> rat \<Rightarrow> pyfloat" where
  "fl_times (Fin x) c = Fin (x * c)"
| "fl_times f c = f"

definition scale_rate :: "pyfloat \<Rightarrow> pyfloat" where
  "scale_rate val =
     (if fl_less (Fin 0) val \<and> fl_less val (Fin 1) then fl_round 6 (fl_times val 100)
      else fl_round 6 val)"

fun clean_rate :: "pyval \<Rightarrow> pyfloat" where
  "clean_rate PNone = Fin 0"
| "clean_rate (PFloat NaN) = Fin 0"
| "clean_rate (PFloat f) = scale_rate f"
| "clean_rate (PInt n) = scale_rate (Fin (of_int n))"
| "clean_rate (PList l) = Fin 0"
| "clean_rate (PStr v) =
     (let s = py_strip v in
      if py_endswith s ''%'' then
        (case py_float_of_str (py_strip (py_remove CHR '','' (py_remove CHR ''%'' s))) of
           Some f \<Rightarrow> f
         | None \<Rightarrow> Fin 0)
      else
        (case py_float_of_str (py_remove CHR '','' s) of
           Some val \<Rightarrow> scale_rate val
         | None \<Rightarrow> Fin 0))"

text \<open>The test \<open>s.endswith('%')\<close> of line 94, on the text of a value.\<close>

definition ends_with_percent :: "pyval \<Rightarrow> bool" where
  "ends_with_percent v = (case v of PStr s \<Rightarrow> py_endswith (py_strip s) ''%'' | _ \<Rightarrow> False)"

text \<open>\<open>compute_ctr(clicks, impressions)\<close> of normalizer\_utils.py.\<close>

definition compute_ctr :: "int \<Rightarrow> int \<Rightarrow> pyfloat" where
  "compute_ctr clicks impressions =
     (if impressions \<noteq> 0 \<and> 0 < impressions
      then Fin (py_round 4 (of_int clicks / of_int impressions * 100))
      else Fin 0)"

text \<open>
  One row of \<open>process_posts_file\<close> with a title (lines 346 to 387). A count field of \<open>post_cells\<close> is
  \<open>None\<close> when the grid has no such column and otherwise the integer that \<open>safe_int\<close>
  returned for the row's cell; a rate field is \<open>None\<close> when the grid has no such column and
  otherwise the raw cell. \<open>post_record\<close> holds the numeric fields of the record the row
  becomes.
\<close>

record post_cells =
  impressions_cell :: "int option"
  views_cell :: "int option"
  clicks_cell :: "int option"
  ctr_cell :: "pyval option"
  likes_cell :: "int option"
  comments_cell :: "int option"
  reposts_cell :: "int option"
  engagement_rate_cell :: "pyval option"

record post_record =
  impressions :: int
  clicks :: int
  likes :: int
  comments :: int
  shares :: int
  engagement_rate :: pyfloat
  reach :: int
  ctr :: pyfloat

definition count_or_zero :: "int option \<Rightarrow> int" where
  "count_or_zero c = (case c of None \<Rightarrow> 0 | Some n \<Rightarrow> n)"

definition normalize_row :: "post_cells \<Rightarrow> post_record" where
  "normalize_row row =
     (let impressions0 = count_or_zero (impressions_cell row);
          impressions1 = (if impressions0 = 0
                          then (case views_cell row of None \<Rightarrow> impressions0 | Some v \<Rightarrow> v)
                          else impressions0);
          clicks1 = count_or_zero (clicks_cell row);
          ctr_val = (case ctr_cell row of
                       Some c \<Rightarrow> clean_rate c
                     | None \<Rightarrow> compute_ctr clicks1 impressions1);
          likes1 = count_or_zero (likes_cell row);
          comments1 = count_or_zero (comments_cell row);
          shares1 = count_or_zero (reposts_cell row);
          engagement_rate1 =
            (if 0 < impressions1
             then Fin (py_round 6
                    (of_int (likes1 + comments1 + shares1 + clicks1) / of_int impressions1 * 100))
             else (case engagement_rate_cell row of
                     Some c \<Rightarrow> clean_rate c
                   | None \<Rightarrow> Fin 0))
      in \<lparr> impressions = impressions1, clicks = clicks1, likes = likes1, comments = comments1,
           shares = shares1, engagement_rate = py_min engagement_rate1 (Fin 100),
           reach = impressions1,
           ctr = (if fl_less (Fin 0) ctr_val then ctr_val else compute_ctr clicks1 impressions1) \<rparr>)"

section \<open>debug\_dates.py: the ambiguous-date resolver\<close>

text \<open>
  \<open>likely_ambiguous(s)\<close>: the pattern \<open>^\s*(\d{1,2})[/-](\d{1,2})[/-](\d{2,4})\<close> matched at
  the start of \<open>s.strip()\<close>. A group \<open>\d{1,2}\<close> followed by a separator matches exactly a
  run of one or two digits; the last group needs two digits, and what follows them is not
  looked at.
\<close>

definition is_sep :: "char \<Rightarrow> bool" where
  "is_sep c = (c = CHR ''/'' \<or> c = CHR ''-'')"

definition likely_ambiguous :: "string \<Rightarrow> bool" where
  "likely_ambiguous s =
     (let t = py_strip s;
          g1 = takeWhile is_digit t; r1 = dropWhile is_digit t
      in if (length g1 = 1 \<or> length g1 = 2) \<and> r1 \<noteq> [] \<and> is_sep (hd r1) then
           (let g2 = takeWhile is_digit (tl r1); r2 = dropWhile is_digit (tl r1)
            in if (length g2 = 1 \<or> length g2 = 2) \<and> r2 \<noteq> [] \<and> is_sep (hd r2) then
                 2 \<le> length (takeWhile is_digit (tl r2))
                 \<and> nat_of_digits g1 \<le> 12 \<and> nat_of_digits g2 \<le> 12
               else False)
         else False)"

text \<open>
  What \<open>pd.to_datetime\<close> returns: a timestamp, here the seconds since the epoch, or the
  missing value \<open>NaT\<close>, which it returns for an empty text and for the text \<open>nan\<close> (the
  \<open>str\<close> of an empty cell). \<open>parse_try\<close> turns an exception into \<open>None\<close>; its results are
  arguments of the model. \<open>datetime_ts y m d\<close> is \<open>datetime(y, m, d)\<close>.
\<close>

datatype pd_time = NaT | Ts int

definition days_from_civil :: "int \<Rightarrow> int \<Rightarrow> int \<Rightarrow> int" where
  "days_from_civil y m d =
     (let y1 = (if m \<le> 2 then y - 1 else y);
          era = y1 div 400;
          yoe = y1 - era * 400;
          doy = (153 * (if 2 < m then m - 3 else m + 9) + 2) div 5 + d - 1;
          doe = yoe * 365 + yoe div 4 - yoe div 100 + doy
      in era * 146097 + doe - 719468)"

definition datetime_ts :: "int \<Rightarrow> int \<Rightarrow> int \<Rightarrow> pd_time" where
  "datetime_ts y m d = Ts (86400 * days_from_civil y m d)"

text \<open>
  \<open>abs((a - b).total_seconds())\<close>: \<open>None\<close> is \<open>nan\<close>, the result when either side is
  \<open>NaT\<close>. \<open>nan_le\<close> is \<open><=\<close> on such values, false when either is \<open>nan\<close>, and
  \<open>ts_le\<close> is \<open><=\<close> on timestamps, false when either is \<open>NaT\<close>.
\<close>

fun abs_seconds :: "pd_time \<Rightarrow> pd_time \<Rightarrow> int option" where
  "abs_seconds (Ts a) (Ts b) = Some \<bar>a - b\<bar>"
| "abs_seconds a b = None"

fun nan_le :: "int option \<Rightarrow> int option \<Rightarrow> bool" where
  "nan_le (Some x) (Some y) = (x \<le> y)"
| "nan_le a b = False"

fun ts_le :: "pd_time \<Rightarrow> pd_time \<Rightarrow> bool" where
  "ts_le (Ts a) (Ts b) = (a \<le> b)"
| "ts_le a b = False"

datatype choice = Dmy | Mdy

text \<open>
  \<open>a or b\<close> on two results of \<open>parse_try\<close>: \<open>None\<close> is false, a timestamp and \<open>NaT\<close> are
  objects and true.
\<close>

definition py_or :: "pd_time option \<Rightarrow> pd_time option \<Rightarrow> pd_time option" where
  "py_or a b = (case a of None \<Rightarrow> b | Some t \<Rightarrow> Some t)"

text \<open>Lines 59 to 73 of \<open>main\<close>: the choice, once both interpretations parsed.\<close>

definition choose_interpretation :: "pd_time \<Rightarrow> pd_time \<Rightarrow> pd_time option \<Rightarrow> int \<Rightarrow> choice" where
  "choose_interpretation ts_dmy ts_mdy ts_camp utc_year =
     (case ts_camp of
        Some c \<Rightarrow>
          if nan_le (abs_seconds ts_dmy c) (abs_seconds ts_mdy c) then Dmy else Mdy
      | None \<Rightarrow>
          let low = datetime_ts 2015 1 1;
              hi = datetime_ts (utc_year + 1) 12 31;
              ok_dmy = (ts_le low ts_dmy \<and> ts_le ts_dmy hi);
              ok_mdy = (ts_le low ts_mdy \<and> ts_le ts_mdy hi)
          in if ok_dmy \<and> \<not> ok_mdy then Dmy
             else if ok_mdy \<and> \<not> ok_dmy then Mdy
             else Dmy)"

text \<open>
  The body of the loop of \<open>main\<close> for a cell that is not a datetime: \<open>s\<close> is its text,
  \<open>ts_dmy\<close> and \<open>ts_mdy\<close> are \<open>parse_try(s, True)\<close> and \<open>parse_try(s, False)\<close>, and
  \<open>camp_dmy\<close> and \<open>camp_mdy\<close> are the same for the text of the campaign-start cell. The
  result is the \<open>chosen\<close> field of the row appended to the report, if one is.
\<close>

definition resolve_row ::
  "string \<Rightarrow> pd_time option \<Rightarrow> pd_time option \<Rightarrow> pd_time option \<Rightarrow> pd_time option \<Rightarrow> int
     \<Rightarrow> choice option" where
  "resolve_row s ts_dmy ts_mdy camp_dmy camp_mdy utc_year =
     (if py_strip s = [] then None
      else if likely_ambiguous s then
        (case (ts_dmy, ts_mdy) of
           (Some a, Some b) \<Rightarrow> Some (choose_interpretation a b (py_or camp_dmy camp_mdy) utc_year)
         | _ \<Rightarrow> None)
      else None)"

section \<open>export\_ingester.py: the format loader\<close>

text \<open>
  A path is its text. \<open>path_suffix\<close>, \<open>path_name\<close>, \<open>path_stem\<close> and \<open>path_parent\<close> are
  the attributes \<open>suffix\<close>, \<open>name\<close>, \<open>stem\<close> and \<open>parent\<close> of a \<open>Path\<close>, and
  \<open>path_join d t\<close> is \<open>d / t\<close>. The suffix is the part of the last component from its last
  dot, unless that dot starts or ends the component.
\<close>

definition path_suffix :: "string \<Rightarrow> string" where
  "path_suffix p =
     (let name_rev = takeWhile (\<lambda>c. c \<noteq> CHR ''/'') (rev p);
          after_rev = takeWhile (\<lambda>c. c \<noteq> CHR ''.'') name_rev;
          rest = dropWhile (\<lambda>c. c \<noteq> CHR ''.'') name_rev
      in if rest = [] \<or> tl rest = [] \<or> after_rev = [] then [] else CHR ''.'' # rev after_rev)"

definition path_name :: "string \<Rightarrow> string" where
  "path_name p = rev (takeWhile (\<lambda>c. c \<noteq> CHR ''/'') (rev p))"

definition path_stem :: "string \<Rightarrow> string" where
  "path_stem p = take (length (path_name p) - length (path_suffix p)) (path_name p)"

definition path_parent :: "string \<Rightarrow> string" where
  "path_parent p =
     (let r = dropWhile (\<lambda>c. c \<noteq> CHR ''/'') (rev p)
      in if r = [] then ''.'' else if tl r = [] then ''/'' else rev (tl r))"

definition path_join :: "string \<Rightarrow> string \<Rightarrow> string" where
  "path_join d t = (if t \<noteq> [] \<and> hd t = CHR ''/'' then t else d @ ''/'' @ t)"

definition POSTS_EXTENSIONS :: "string list" where
  "POSTS_EXTENSIONS = [''.csv'', ''.xls'', ''.xlsx'']"

definition endswith_any :: "string \<Rightarrow> string list \<Rightarrow> bool" where
  "endswith_any s sufs = list_ex (py_endswith s) sufs"

text \<open>
  A grid (a DataFrame) is its column labels and its rows; \<open>pd.DataFrame()\<close> is
  \<open>empty_frame\<close>. The loader's collaborators are the fields of \<open>world\<close>: each is the outcome
  of one library call of this run, a value or the exception it raises (\<open>Inl\<close>).
  \<open>zip_namelist\<close> opens the archive and lists it, \<open>zip_close\<close> leaves the \<open>with\<close> block,
  \<open>excel_sheet_names\<close> is \<open>pd.ExcelFile(...).sheet_names\<close>, and \<open>read_csv\<close> takes the
  encoding, if one is given. \<open>is_zipfile\<close> is \<open>zipfile.is_zipfile\<close>, which returns a truth
  value or raises (it catches \<open>OSError\<close> only).
  \<open>read_xls_posts_via_xlrd\<close> (lines 182 to 187) is taken as a whole: it returns a grid or
  raises.
\<close>

datatype frame = Frame (frame_columns: "string list") (frame_rows: "pyval list list")

definition empty_frame :: frame where
  "empty_frame = Frame [] []"

datatype lib_error = LibError string

record world =
  zip_namelist :: "string \<Rightarrow> lib_error + string list"
  zip_mkdir :: "string \<Rightarrow> lib_error + unit"
  zip_extract :: "string \<Rightarrow> string \<Rightarrow> string \<Rightarrow> lib_error + unit"
  zip_close :: "string \<Rightarrow> lib_error + unit"
  is_zipfile :: "string \<Rightarrow> lib_error + bool"
  excel_sheet_names :: "string \<Rightarrow> lib_error + string list"
  read_excel :: "string \<Rightarrow> string \<Rightarrow> lib_error + frame"
  read_csv :: "string \<Rightarrow> string option \<Rightarrow> lib_error + frame"
  read_xls_posts_via_xlrd :: "string \<Rightarrow> lib_error + frame"

definition ENCODINGS :: "string list" where
  "ENCODINGS = [''utf-8'', ''cp1252'', ''latin-1'', ''iso-8859-1'', ''utf-16'']"

fun try_encodings :: "world \<Rightarrow> string \<Rightarrow> string list \<Rightarrow> frame" where
  "try_encodings w file_path [] = empty_frame"
| "try_encodings w file_path (enc # encs) =
     (case read_csv w file_path (Some enc) of
        Inr df \<Rightarrow> df
      | Inl e \<Rightarrow> try_encodings w file_path encs)"

definition read_xlsx_sheet :: "world \<Rightarrow> string \<Rightarrow> lib_error + frame" where
  "read_xlsx_sheet w file_path =
     (case excel_sheet_names w file_path of
        Inl e \<Rightarrow> Inl e
      | Inr sheet_names \<Rightarrow>
          let post_sheets = filter (\<lambda>s. py_in ''post'' (py_lower s)) sheet_names in
          if post_sheets \<noteq> [] then read_excel w file_path (hd post_sheets)
          else if sheet_names = [] then Inl (LibError ''IndexError'')
          else read_excel w file_path (hd sheet_names))"

text \<open>
  The choice of the archive member (lines 211 to 215): \<open>None\<close> when no member is a
  spreadsheet, and the directory it is extracted to (line 216).
\<close>

definition pick_target :: "string list \<Rightarrow> string option" where
  "pick_target members =
     (let candidates = filter (\<lambda>m. endswith_any (py_lower m) POSTS_EXTENSIONS) members in
      if candidates = [] then None
      else
        let preferred = filter (\<lambda>c. py_in ''post'' (py_lower c)) candidates
        in Some (if preferred \<noteq> [] then hd preferred else hd candidates))"

definition extract_dir_of :: "string \<Rightarrow> string" where
  "extract_dir_of file_path = path_join (path_parent file_path) (''unzipped_'' @ path_stem file_path)"

subsection \<open>The extracted member is not an archive\<close>

text \<open>
  The loader calls itself on the extracted member, inside the \<open>try\<close> of the archive branch:
  what the inner call raises is caught there. The member's name ends in \<open>.csv\<close>,
  \<open>.xls\<close> or \<open>.xlsx\<close> in some case, so the suffix of its path is one of these or empty and
  never \<open>.zip\<close>: the recursion is at most one call deep.
\<close>

lemma py_startswith_append_right: "py_startswith s p \<Longrightarrow> py_startswith (s @ t) p"
  by (induction s p rule: py_startswith.induct) auto

lemma lower_char_fixes: "lower_char CHR ''.'' = CHR ''.''" "lower_char CHR ''/'' = CHR ''/''"
  by (simp_all add: lower_char_def)

lemma lower_char_not_punct:
  assumes "lower_char c = x" "x \<noteq> CHR ''.''" "x \<noteq> CHR ''/''"
  shows "c \<noteq> CHR ''.'' \<and> c \<noteq> CHR ''/''"
  using assms lower_char_fixes by auto

lemma lower_char_dot: "lower_char c = CHR ''.'' \<Longrightarrow> c = CHR ''.''"
proof -
  assume a: "lower_char c = CHR ''.''"
  let ?n = "of_char c :: nat"
  show ?thesis
  proof (cases "(65 \<le> ?n \<and> ?n \<le> 90) \<or> (192 \<le> ?n \<and> ?n \<le> 222 \<and> ?n \<noteq> 215)")
    case True
    then have "lower_char c = char_of (?n + 32)" by (simp add: lower_char_def Let_def)
    with a have "char_of (?n + 32) = CHR ''.''" by simp
    then have "of_char (char_of (?n + 32) :: char) = (of_char CHR ''.'' :: nat)" by simp
    moreover from True have "?n + 32 < 256" by auto
    then have "of_char (char_of (?n + 32) :: char) = ?n + 32"
      by (simp add: of_char_of)
    ultimately show ?thesis using True by simp
  next
    case False
    with a show ?thesis by (simp add: lower_char_def Let_def)
  qed
qed

lemma ext_after_dot:
  assumes "py_startswith (map lower_char r) (e @ ''.'')"
    and "CHR ''.'' \<notin> set e" "CHR ''/'' \<notin> set e"
  shows "map lower_char (takeWhile (\<lambda>c. c \<noteq> CHR ''.'') (takeWhile (\<lambda>c. c \<noteq> CHR ''/'') r)) = e"
  using assms
proof (induction e arbitrary: r)
  case Nil
  then obtain c r' where r: "r = c # r'" and "lower_char c = CHR ''.''"
    by (cases r) auto
  then have "c = CHR ''.''" by (simp add: lower_char_dot)
  with r show ?case by simp
next
  case (Cons x e)
  then obtain c r' where r: "r = c # r'" and c: "lower_char c = x"
    and rest: "py_startswith (map lower_char r') (e @ ''.'')"
    by (cases r) auto
  from Cons.prems have "x \<noteq> CHR ''.''" "x \<noteq> CHR ''/''" by auto
  with c have "c \<noteq> CHR ''.'' \<and> c \<noteq> CHR ''/''" by (rule lower_char_not_punct)
  moreover from Cons.prems have "CHR ''.'' \<notin> set e" "CHR ''/'' \<notin> set e" by auto
  from Cons.IH [OF rest this]
  have "map lower_char (takeWhile (\<lambda>c. c \<noteq> CHR ''.'') (takeWhile (\<lambda>c. c \<noteq> CHR ''/'') r')) = e" .
  ultimately show ?case using r c by simp
qed

lemma path_suffix_lower:
  assumes "py_startswith (map lower_char (rev p)) (e @ ''.'')"
    and "CHR ''.'' \<notin> set e" "CHR ''/'' \<notin> set e"
  shows "py_lower (path_suffix p) = [] \<or> py_lower (path_suffix p) = CHR ''.'' # rev e"
proof -
  have "map lower_char (rev (takeWhile (\<lambda>c. c \<noteq> CHR ''.'') (takeWhile (\<lambda>c. c \<noteq> CHR ''/'') (rev p))))
      = rev e"
    unfolding rev_map [symmetric] ext_after_dot [OF assms] ..
  then show ?thesis
    by (simp add: path_suffix_def Let_def py_lower_def lower_char_fixes)
qed

lemma rev_path_join: "t \<noteq> [] \<Longrightarrow> \<exists>x. rev (path_join d t) = rev t @ x"
  by (simp add: path_join_def)

lemma inner_path_not_zip:
  assumes "endswith_any (py_lower t) POSTS_EXTENSIONS"
  shows "py_lower (path_suffix (path_join d t)) \<noteq> ''.zip''"
proof -
  from assms have ne: "t \<noteq> []"
    by (auto simp: endswith_any_def POSTS_EXTENSIONS_def py_endswith_def py_lower_def)
  from rev_path_join [OF ne] obtain x where x: "rev (path_join d t) = rev t @ x" by blast
  have st: "py_startswith (map lower_char (rev t)) pat
      \<Longrightarrow> py_startswith (map lower_char (rev (path_join d t))) pat" for pat
    unfolding x by (simp add: py_startswith_append_right)
  from assms consider
      "py_startswith (map lower_char (rev t)) (''vsc'' @ ''.'')"
    | "py_startswith (map lower_char (rev t)) (''slx'' @ ''.'')"
    | "py_startswith (map lower_char (rev t)) (''xslx'' @ ''.'')"
    by (auto simp: endswith_any_def POSTS_EXTENSIONS_def py_endswith_def py_lower_def rev_map)
  then show ?thesis
  proof cases
    case 1
    from path_suffix_lower [OF st [OF 1]] show ?thesis by auto
  next
    case 2
    from path_suffix_lower [OF st [OF 2]] show ?thesis by auto
  next
    case 3
    from path_suffix_lower [OF st [OF 3]] show ?thesis by auto
  qed
qed


lemma pick_target_is_posts_file:
  assumes "pick_target members = Some target"
  shows "endswith_any (py_lower target) POSTS_EXTENSIONS"
proof -
  let ?candidates = "filter (\<lambda>m. endswith_any (py_lower m) POSTS_EXTENSIONS) members"
  let ?preferred = "filter (\<lambda>c. py_in ''post'' (py_lower c)) ?candidates"
  from assms have ne: "?candidates \<noteq> []"
    and t: "target = (if ?preferred \<noteq> [] then hd ?preferred else hd ?candidates)"
    by (auto simp: pick_target_def Let_def split: if_splits)
  have "target \<in> set ?candidates"
  proof (cases "?preferred = []")
    case True
    from ne have "hd ?candidates \<in> set ?candidates" by (rule hd_in_set)
    with t True show ?thesis by (simp only: if_False not_True_eq_False simp_thms)
  next
    case False
    then have "hd ?preferred \<in> set ?preferred" by (rule hd_in_set)
    then have "hd ?preferred \<in> set ?candidates" by (simp only: set_filter) blast
    with t False show ?thesis by (simp only: if_True simp_thms)
  qed
  then show ?thesis by simp
qed

subsection \<open>The loader\<close>

function load_posts_df_robust :: "world \<Rightarrow> string \<Rightarrow> lib_error + frame" where
  "load_posts_df_robust w file_path =
     (let ext = py_lower (path_suffix file_path) in
      if ext = ''.zip'' then
        (case zip_namelist w file_path of
           Inl e \<Rightarrow> Inr empty_frame
         | Inr members \<Rightarrow>
             (case pick_target members of
                None \<Rightarrow> Inr empty_frame
              | Some target \<Rightarrow>
                  (case zip_mkdir w (extract_dir_of file_path) of
                     Inl e \<Rightarrow> Inr empty_frame
                   | Inr u \<Rightarrow>
                       (case zip_extract w file_path target (extract_dir_of file_path) of
                          Inl e \<Rightarrow> Inr empty_frame
                        | Inr u \<Rightarrow>
                            (case load_posts_df_robust w
                                    (path_join (extract_dir_of file_path) target) of
                               Inl e \<Rightarrow> Inr empty_frame
                             | Inr df \<Rightarrow>
                                 (case zip_close w file_path of
                                    Inl e \<Rightarrow> Inr empty_frame
                                  | Inr u \<Rightarrow> Inr df))))))
      else if ext = ''.xlsx'' then
        (case is_zipfile w file_path of
           Inl e \<Rightarrow> Inl e
         | Inr is_zip \<Rightarrow>
             if is_zip then
               (case read_xlsx_sheet w file_path of
                  Inr df \<Rightarrow> Inr df
                | Inl e \<Rightarrow> Inr (try_encodings w file_path ENCODINGS))
             else Inr (try_encodings w file_path ENCODINGS))
      else if ext = ''.xls'' then
        (case read_xls_posts_via_xlrd w file_path of
           Inr df \<Rightarrow> Inr df
         | Inl e \<Rightarrow> Inr empty_frame)
      else if ext = ''.csv'' then Inr (try_encodings w file_path ENCODINGS)
      else
        (case read_csv w file_path None of
           Inr df \<Rightarrow> Inr df
         | Inl e \<Rightarrow> Inr empty_frame))"
  by pat_completeness auto
termination
proof (relation "measure (\<lambda>(w, p). if py_lower (path_suffix p) = ''.zip'' then 1 else 0)")
  show "wf (measure (\<lambda>(w, p). if py_lower (path_suffix p) = ''.zip'' then 1 else (0::nat)))"
    by simp
next
  fix w :: world and file_path ext members target
  assume ext: "ext = py_lower (path_suffix file_path)" "ext = ''.zip''"
    and tgt: "pick_target members = Some target"
  from tgt have "endswith_any (py_lower target) POSTS_EXTENSIONS"
    by (rule pick_target_is_posts_file)
  then have "py_lower (path_suffix (path_join (extract_dir_of file_path) target)) \<noteq> ''.zip''"
    by (rule inner_path_not_zip)
  with ext show "((w, path_join (extract_dir_of file_path) target), (w, file_path))
      \<in> measure (\<lambda>(w, p). if py_lower (path_suffix p) = ''.zip'' then 1 else 0)"
    by simp
qed

text \<open>
  \<open>from_reader w df\<close>: the grid is one that a reader returned.
\<close>

definition from_reader :: "world \<Rightarrow> frame \<Rightarrow> bool" where
  "from_reader w df =
     ((\<exists>p enc. read_csv w p enc = Inr df) \<or> (\<exists>p sheet. read_excel w p sheet = Inr df)
      \<or> (\<exists>p. read_xls_posts_via_xlrd w p = Inr df))"

section \<open>Facts about the string helpers\<close>

lemma py_startswith_append: "py_startswith (p @ s) p"
  by (induction p) auto

lemma py_in_append_right: "py_in sub s \<Longrightarrow> py_in sub (s @ t)"
proof (induction s)
  case Nil
  then show ?case by (cases t) auto
next
  case (Cons c cs)
  then show ?case using py_startswith_append_right [of "c # cs" sub t] by auto
qed

lemma py_startswith_map:
  "py_startswith s p \<Longrightarrow> py_startswith (map f s) (map f p)"
  by (induction s p rule: py_startswith.induct) auto

lemma py_in_map: "py_in sub s \<Longrightarrow> py_in (map f sub) (map f s)"
proof (induction s)
  case Nil
  then show ?case by simp
next
  case (Cons c cs)
  then show ?case using py_startswith_map [of "c # cs" sub f] by auto
qed

lemma py_lower_video: "py_lower ''video'' = ''video''"
  by (simp add: py_lower_def lower_char_def)

lemma py_in_lower_video: "py_in ''video'' s \<Longrightarrow> py_in ''video'' (py_lower s)"
  using py_in_map [of "''video''" s lower_char] py_lower_video
  by (simp add: py_lower_def)

lemma text_contains_content:
  "py_in sub (py_lower c) \<Longrightarrow> py_in sub (py_lower (py_join_space [c, u, t]))"
  by (simp add: py_join_space_def py_lower_def py_in_append_right)

lemma classify_canonical: "classify raw text \<in> set CANON_POST_TYPES"
  by (simp add: classify_def CANON_POST_TYPES_def)

lemma classify_video: "py_in ''video'' text \<Longrightarrow> classify raw text = ''video''"
  by (simp add: classify_def)

lemma label_fixed: "l \<in> set DISTRIBUTION_LABELS \<Longrightarrow> py_lower (py_strip l) = l"
  by (auto simp: DISTRIBUTION_LABELS_def py_lower_def py_strip_def lower_char_def is_space_def)

section \<open>Post-type classification ignores distribution labels\<close>

text \<open>
  Claim C6. For every content, url and title, \<open>normalize_post_type\<close> called with a raw label
  that is one of organic, sponsored, paid, boosted, promoted (as written, or up to case and
  surrounding whitespace) returns what it returns for the empty label and for no label; its
  result is always one of text, article, image, document, video; and a record whose raw label
  is "Sponsored" and whose content contains "video" classifies as video.
\<close>

theorem normalize_post_type_ignores_distribution:
  "(raw \<in> set DISTRIBUTION_LABELS \<or> py_lower (py_strip raw) \<in> set DISTRIBUTION_LABELS \<longrightarrow>
      normalize_post_type (Some raw) content url title = normalize_post_type (Some []) content url title
      \<and> normalize_post_type (Some raw) content url title = normalize_post_type None content url title)
   \<and> normalize_post_type raw_type content url title \<in> set CANON_POST_TYPES
   \<and> (py_in ''video'' (py_or_empty content) \<longrightarrow>
        normalize_post_type (Some ''Sponsored'') content url title = ''video'')"
proof -
  have a: "normalize_post_type (Some raw) content url title = normalize_post_type (Some []) content url title
      \<and> normalize_post_type (Some raw) content url title = normalize_post_type None content url title"
    if "raw \<in> set DISTRIBUTION_LABELS \<or> py_lower (py_strip raw) \<in> set DISTRIBUTION_LABELS"
  proof -
    from that have "py_lower (py_strip raw) \<in> set DISTRIBUTION_LABELS"
      using label_fixed by auto
    then show ?thesis
      by (simp add: normalize_post_type_def Let_def py_or_empty_def py_strip_def py_lower_def)
  qed
  have b: "normalize_post_type raw_type content url title \<in> set CANON_POST_TYPES"
    by (simp add: normalize_post_type_def Let_def classify_canonical)
  have c: "normalize_post_type (Some ''Sponsored'') content url title = ''video''"
    if "py_in ''video'' (py_or_empty content)"
  proof -
    from that have "py_in ''video'' (py_lower (py_or_empty content))"
      by (rule py_in_lower_video)
    then have "py_in ''video''
        (py_lower (py_join_space [py_or_empty content, py_or_empty url, py_or_empty title]))"
      by (rule text_contains_content)
    then show ?thesis
      by (simp add: normalize_post_type_def Let_def classify_video)
  qed
  from a b c show ?thesis by blast
qed

theorem normalize_post_type_witness:
  "normalize_post_type (Some ''Sponsored'') (Some ''Our new video is out'') (Some []) (Some [])
     = normalize_post_type (Some []) (Some ''Our new video is out'') (Some []) (Some [])
   \<and> normalize_post_type (Some ''Sponsored'') (Some ''Our new video is out'') (Some []) (Some [])
     = ''video''
   \<and> ''video'' \<in> set CANON_POST_TYPES"
proof -
  have h1: "py_lower (py_strip ''Sponsored'') \<in> set DISTRIBUTION_LABELS"
    by code_simp
  have h2: "py_in ''video'' (py_or_empty (Some ''Our new video is out''))"
    by (simp add: py_or_empty_def)
  note T = normalize_post_type_ignores_distribution
    [of "''Sponsored''" "Some ''Our new video is out''" "Some []" "Some []" "Some ''Sponsored''"]
  from T h1 have e1: "normalize_post_type (Some ''Sponsored'') (Some ''Our new video is out'') (Some []) (Some [])
     = normalize_post_type (Some []) (Some ''Our new video is out'') (Some []) (Some [])"
    by blast
  from T h2 have e2: "normalize_post_type (Some ''Sponsored'') (Some ''Our new video is out'') (Some []) (Some [])
     = ''video''"
    by blast
  have e3: "''video'' \<in> set CANON_POST_TYPES"
    by (simp add: CANON_POST_TYPES_def)
  from e1 e2 e3 show ?thesis by blast
qed

lemma index_find:
  "nl \<in> set (map f cols) \<Longrightarrow> Some (cols ! py_index (map f cols) nl) = find (\<lambda>c. f c = nl) cols"
  by (induction cols) auto

lemma find_none_iff_notin: "find (\<lambda>c. f c = nl) cols = None \<longleftrightarrow> nl \<notin> set (map f cols)"
  by (induction cols) auto

lemma first_containing_find:
  "first_containing nl (zip cols (map f cols)) = find (\<lambda>c. py_in nl (f c)) cols"
  by (induction cols) auto

lemma candidate_step:
  "(if py_lower name \<in> set (map py_lower cols)
    then Some (cols ! py_index (map py_lower cols) (py_lower name))
    else first_containing (py_lower name) (zip cols (map py_lower cols)))
   = candidate_match cols name"
proof (cases "py_lower name \<in> set (map py_lower cols)")
  case True
  then have "find (\<lambda>c. py_lower c = py_lower name) cols
      = Some (cols ! py_index (map py_lower cols) (py_lower name))"
    using index_find [of "py_lower name" py_lower cols] by simp
  with True show ?thesis by (simp add: candidate_match_def)
next
  case False
  then have "find (\<lambda>c. py_lower c = py_lower name) cols = None"
    using find_none_iff_notin [of py_lower "py_lower name" cols] by simp
  with False show ?thesis by (simp add: candidate_match_def first_containing_find)
qed

lemma find_column_loop_spec:
  "find_column_loop cols (map py_lower cols) names
     = (case List.map_filter (candidate_match cols) names of [] \<Rightarrow> None | col # _ \<Rightarrow> Some col)"
proof (induction names)
  case Nil
  then show ?case by simp
next
  case (Cons name names)
  show ?case
  proof (cases "candidate_match cols name")
    case None
    with candidate_step [of name cols] Cons show ?thesis
      by (auto simp: Let_def split: if_splits option.splits)
  next
    case (Some c)
    with candidate_step [of name cols] show ?thesis
      by (auto simp: Let_def split: if_splits option.splits)
  qed
qed

lemma py_startswith_refl: "py_startswith s s"
  by (induction s) auto

lemma py_in_refl: "py_in s s"
  by (cases s) (auto simp: py_startswith_refl)

lemma candidate_match_none:
  "candidate_match cols name = None \<longleftrightarrow> \<not> list_ex (\<lambda>c. py_in (py_lower name) (py_lower c)) cols"
proof
  assume "candidate_match cols name = None"
  then have "find (\<lambda>c. py_in (py_lower name) (py_lower c)) cols = None"
    by (auto simp: candidate_match_def split: option.splits)
  then show "\<not> list_ex (\<lambda>c. py_in (py_lower name) (py_lower c)) cols"
    by (simp add: find_None_iff list_ex_iff)
next
  assume n: "\<not> list_ex (\<lambda>c. py_in (py_lower name) (py_lower c)) cols"
  then have f2: "find (\<lambda>c. py_in (py_lower name) (py_lower c)) cols = None"
    by (simp add: find_None_iff list_ex_iff)
  have "\<not> (\<exists>c \<in> set cols. py_lower c = py_lower name)"
  proof
    assume "\<exists>c \<in> set cols. py_lower c = py_lower name"
    then obtain c where "c \<in> set cols" "py_lower c = py_lower name" by blast
    then have "c \<in> set cols \<and> py_in (py_lower name) (py_lower c)"
      using py_in_refl [of "py_lower name"] by simp
    with n show False by (auto simp: list_ex_iff)
  qed
  then have f1: "find (\<lambda>c. py_lower c = py_lower name) cols = None"
    by (simp add: find_None_iff)
  from f1 f2 show "candidate_match cols name = None"
    by (simp add: candidate_match_def)
qed

lemma candidate_match_mem: "candidate_match cols name = Some c \<Longrightarrow> c \<in> set cols"
  by (auto simp: candidate_match_def find_Some_iff split: option.splits)

lemma map_filter_nil_iff: "List.map_filter f xs = [] \<longleftrightarrow> list_all (\<lambda>x. f x = None) xs"
  by (induction xs) (auto simp: split: option.splits)

lemma map_filter_hd_mem:
  "List.map_filter f xs = y # ys \<Longrightarrow> list_ex (\<lambda>x. f x = Some y) xs"
  by (induction xs) (auto simp: split: option.splits)

section \<open>The schema mapper meets its specification\<close>

text \<open>
  Claim C9. \<open>find_column\<close> tries the candidates in the caller's order; for each it returns
  the exact case-insensitive header match if one exists, otherwise the leftmost header that
  contains the candidate; the first column found over all candidates is returned, and none
  exactly when no candidate occurs in any header. The result is a function of the headers and
  the candidates alone, and when it is a column it is one of the (stripped) headers.
\<close>

theorem find_column_meets_spec:
  "find_column headers candidates = find_column_spec headers candidates
   \<and> (find_column headers candidates = None \<longleftrightarrow> \<not> list_ex (header_matches headers) candidates)
   \<and> (case find_column headers candidates of
         None \<Rightarrow> True
       | Some col \<Rightarrow> list_ex (\<lambda>h. py_strip h = col) headers)"
proof -
  let ?cols = "map py_strip headers"
  have eq: "find_column headers candidates = find_column_spec headers candidates"
    by (simp add: find_column_def find_column_spec_def Let_def find_column_loop_spec)
  have hm: "header_matches headers name \<longleftrightarrow> candidate_match ?cols name \<noteq> None" for name
    by (simp add: candidate_match_none header_matches_def list_ex_iff)
  have none: "find_column headers candidates = None \<longleftrightarrow> \<not> list_ex (header_matches headers) candidates"
  proof -
    have "find_column headers candidates = None
        \<longleftrightarrow> List.map_filter (candidate_match ?cols) candidates = []"
      unfolding eq find_column_spec_def by (simp split: list.splits)
    also have "\<dots> \<longleftrightarrow> list_all (\<lambda>x. candidate_match ?cols x = None) candidates"
      by (rule map_filter_nil_iff)
    also have "\<dots> \<longleftrightarrow> \<not> list_ex (header_matches headers) candidates"
      by (simp add: hm list_all_iff list_ex_iff)
    finally show ?thesis .
  qed
  have mem: "list_ex (\<lambda>h. py_strip h = col) headers" if "find_column headers candidates = Some col" for col
  proof -
    from that obtain rest where "List.map_filter (candidate_match ?cols) candidates = col # rest"
      unfolding eq find_column_spec_def by (auto split: list.splits)
    then have "list_ex (\<lambda>x. candidate_match ?cols x = Some col) candidates"
      by (rule map_filter_hd_mem)
    then obtain name where "candidate_match ?cols name = Some col"
      by (auto simp: list_ex_iff)
    then have "col \<in> set ?cols" by (rule candidate_match_mem)
    then show ?thesis by (auto simp: list_ex_iff)
  qed
  from eq none mem show ?thesis by (auto split: option.splits)
qed


lemma find_column_example:
  "find_column [''Post title'', '' Impressions '', ''Clicks (total)'', ''Link clicks'', ''CLICKS'']
     [''reach'', ''clicks'', ''link clicks''] = Some ''CLICKS''
   \<and> find_column [''Post title'', ''Clicks (total)'', ''Link clicks''] [''link clicks'', ''clicks'']
     = Some ''Link clicks''
   \<and> find_column [''Post title'', '' Impressions ''] [''clicks''] = None"
  by code_simp

section \<open>Facts about binary64 rounding\<close>

declare bit_length.simps [simp del]

lemma two_pow_powi: "two_pow e = 2 powi e"
  by (simp add: two_pow_def power_int_def field_simps)

lemma two_pow_pos: "0 < two_pow e"
  by (simp add: two_pow_powi zero_less_power_int)

lemma two_pow_add: "two_pow (a + b) = two_pow a * two_pow b"
  by (simp add: two_pow_powi power_int_add)

lemma two_pow_mono: "a \<le> b \<Longrightarrow> two_pow a \<le> two_pow b"
  by (simp add: two_pow_powi power_int_increasing)

lemma two_pow_strict_mono: "a < b \<Longrightarrow> two_pow a < two_pow b"
  by (simp add: two_pow_powi power_int_strict_increasing)

lemma two_pow_less_iff: "two_pow a < two_pow b \<longleftrightarrow> a < b"
  using two_pow_strict_mono [of a b] two_pow_mono [of b a] by (cases "a < b") auto

lemma bit_length_bounds:
  "0 < n \<Longrightarrow> 0 < bit_length n \<and> 2 ^ nat (bit_length n - 1) \<le> n \<and> n < 2 ^ nat (bit_length n)"
proof (induction n rule: bit_length.induct)
  case (1 n)
  have eq: "bit_length n = 1 + bit_length (n div 2)" using 1(2) by (simp add: bit_length.simps [of n])
  show ?case
  proof (cases "n div 2 \<le> 0")
    case True
    with 1(2) have "n = 1" by linarith
    then show ?thesis by (simp add: bit_length.simps [of 1] bit_length.simps [of 0])
  next
    case False
    with 1 have pos: "0 < bit_length (n div 2)"
      and ih: "2 ^ nat (bit_length (n div 2) - 1) \<le> n div 2" "n div 2 < 2 ^ nat (bit_length (n div 2))"
      by auto
    from pos have e1: "(2::int) ^ nat (bit_length (n div 2)) = 2 * 2 ^ nat (bit_length (n div 2) - 1)"
      by (metis Suc_nat_eq_nat_zadd1 add.commute diff_add_cancel power_Suc zle_diff1_eq)
    from pos have e2: "nat (1 + bit_length (n div 2)) = Suc (nat (bit_length (n div 2)))"
      by linarith
    have "2 * 2 ^ nat (bit_length (n div 2) - 1) \<le> 2 * (n div 2)" using ih(1) by simp
    also have "\<dots> \<le> n" by simp
    finally have lo: "2 ^ nat (bit_length n - 1) \<le> n" using e1 by (simp add: eq)
    have "n < 2 * (n div 2) + 2" by linarith
    also have "\<dots> \<le> 2 * 2 ^ nat (bit_length (n div 2))" using ih(2) by linarith
    finally have "n < 2 ^ nat (bit_length n)" by (simp add: eq e2)
    with lo pos show ?thesis by (simp add: eq)
  qed
qed

lemma bit_length_two_pow:
  assumes "0 < n"
  shows "two_pow (bit_length n - 1) \<le> of_int n" "of_int n < two_pow (bit_length n)"
proof -
  note B = bit_length_bounds [OF assms]
  from B have "(of_int (2 ^ nat (bit_length n - 1)) :: rat) \<le> of_int n"
    by (simp only: of_int_le_iff)
  with B show "two_pow (bit_length n - 1) \<le> of_int n" by (simp add: two_pow_def)
  from B have "(of_int n :: rat) < of_int (2 ^ nat (bit_length n))"
    by (simp only: of_int_less_iff)
  with B show "of_int n < two_pow (bit_length n)" by (simp add: two_pow_def)
qed

lemma floor_log2_bounds:
  assumes "0 < x"
  shows "two_pow (floor_log2 x) \<le> x \<and> x < two_pow (floor_log2 x + 1)"
proof -
  obtain p q where pq: "quotient_of x = (p, q)" by (cases "quotient_of x")
  then have q: "0 < q" and x: "x = of_int p / of_int q"
    by (simp_all add: quotient_of_denom_pos quotient_of_div)
  with assms have p: "0 < p" by (simp add: zero_less_divide_iff)
  let ?d = "bit_length p - bit_length q"
  note P = bit_length_two_pow [OF p] and Q = bit_length_two_pow [OF q]
  have qpos: "(0::rat) < of_int q" using q by simp
  have up: "x < two_pow (?d + 1)"
  proof -
    have "of_int p < two_pow (?d + 1) * two_pow (bit_length q - 1)"
      using P(2) unfolding two_pow_add [symmetric] by simp
    also have "\<dots> \<le> two_pow (?d + 1) * of_int q"
      using Q(1) by (simp add: two_pow_pos mult_left_mono order_less_imp_le)
    finally show ?thesis using qpos by (simp add: x pos_divide_less_eq)
  qed
  have lo: "two_pow (?d - 1) \<le> x"
  proof -
    have "two_pow (?d - 1) * of_int q \<le> two_pow (?d - 1) * two_pow (bit_length q)"
      using Q(2) by (simp add: two_pow_pos mult_left_mono order_less_imp_le)
    also have "\<dots> = two_pow (bit_length p - 1)"
      unfolding two_pow_add [symmetric] by simp
    also have "\<dots> \<le> of_int p" using P(1) .
    finally show ?thesis using qpos by (simp add: x pos_le_divide_eq)
  qed
  show ?thesis
  proof (cases "two_pow ?d \<le> x")
    case True
    then have "floor_log2 x = ?d" by (simp add: floor_log2_def pq Let_def)
    with True up show ?thesis by simp
  next
    case False
    then have "floor_log2 x = ?d - 1" by (simp add: floor_log2_def pq Let_def)
    with False lo show ?thesis by simp
  qed
qed

lemma to_double_finite:
  assumes "\<bar>x\<bar> < two_pow 1023"
  shows "\<exists>y. to_double x = Fin y"
proof (cases "x = 0")
  case True
  then show ?thesis by (simp add: to_double_def)
next
  case False
  then have "0 < \<bar>x\<bar>" by simp
  from floor_log2_bounds [OF this] assms have "two_pow (floor_log2 \<bar>x\<bar>) < two_pow 1023"
    by linarith
  then have "floor_log2 \<bar>x\<bar> < 1023" by (simp only: two_pow_less_iff)
  define e where "e = max (floor_log2 \<bar>x\<bar>) (- 1022)"
  from \<open>floor_log2 \<bar>x\<bar> < 1023\<close> have "e < 1023" by (simp add: e_def)
  then have ne: "\<not> (1023 < e \<or> (e = 1023 \<and> \<bar>round_half_even (x / two_pow (e - 52))\<bar> = 2 ^ 53))"
    by simp
  show ?thesis
    unfolding to_double_def Let_def e_def [symmetric] by (simp only: False ne if_False) simp
qed

lemma to_double_not_nan: "to_double x \<noteq> NaN"
  by (simp add: to_double_def Let_def)

lemma dbl_round_not_nan: "f \<noteq> NaN \<Longrightarrow> dbl_round nd f \<noteq> NaN"
  by (cases f) (simp_all add: to_double_not_nan)

section \<open>Facts about the reconciliation engine\<close>

declare chunks.simps [simp del]

lemma chunks_Nil: "chunks n [] = []"
  by (simp add: chunks.simps)

lemma chunks_step: "0 < n \<Longrightarrow> xs \<noteq> [] \<Longrightarrow> chunks n xs = take n xs # chunks n (drop n xs)"
  by (subst chunks.simps) simp

lemma concat_chunks: "0 < n \<Longrightarrow> concat (chunks n xs) = xs"
proof (induction n xs rule: chunks.induct)
  case (1 n xs)
  show ?case
  proof (cases "xs = []")
    case True
    then show ?thesis by (simp add: chunks_Nil)
  next
    case False
    with 1 show ?thesis by (simp add: chunks_step)
  qed
qed

lemma chunks_bounds: "0 < n \<Longrightarrow> b \<in> set (chunks n xs) \<Longrightarrow> b \<noteq> [] \<and> length b \<le> n"
proof (induction n xs rule: chunks.induct)
  case (1 n xs)
  show ?case
  proof (cases "xs = []")
    case True
    with 1 show ?thesis by (simp add: chunks_Nil)
  next
    case False
    with 1 show ?thesis by (auto simp: chunks_step)
  qed
qed

lemma Union_chunks: "0 < n \<Longrightarrow> (\<Union>b \<in> set (chunks n xs). set b) = set xs"
  using concat_chunks [of n xs] by (metis set_concat)

lemma inserted_calls:
  "inserted (map Insert xs @ map Upsert ys) = concat xs"
  by (induction xs) (auto, induction ys, auto)

lemma upserted_calls:
  "upserted (map Insert xs @ map Upsert ys) = concat ys"
  by (induction xs) (auto, induction ys, auto)


lemma key_selected: "py_get (r |` set SELECTED) ''post_id'' = py_get r ''post_id''"
  by (simp add: py_get_def SELECTED_def restrict_map_def)

lemma field_selected: "f \<in> set NUMERIC_FIELDS \<Longrightarrow> py_get (r |` set SELECTED) f = py_get r f"
  by (simp add: py_get_def SELECTED_def restrict_map_def)

lemma add_rows_fst:
  "fst (add_rows rows st) = fst st \<union> (\<lambda>r. py_get r ''post_id'') ` set rows"
proof (induction rows arbitrary: st)
  case Nil
  then show ?case by (simp add: add_rows_def)
next
  case (Cons r rows)
  obtain ids m where st: "st = (ids, m)" by (cases st)
  have step: "add_rows (r # rows) st
      = add_rows rows (insert (py_get r ''post_id'') ids, m(py_get r ''post_id'' \<mapsto> r))"
    by (simp add: add_rows_def st)
  show ?case unfolding step Cons.IH by (simp add: st)
qed

lemma add_rows_snd:
  assumes "\<forall>r \<in> set rows. py_get r ''post_id'' = pid \<longrightarrow> r = b"
  shows "snd (add_rows rows st) pid
           = (if pid \<in> (\<lambda>r. py_get r ''post_id'') ` set rows then Some b else snd st pid)"
  using assms
proof (induction rows arbitrary: st)
  case Nil
  then show ?case by (simp add: add_rows_def)
next
  case (Cons r rows)
  obtain ids m where st: "st = (ids, m)" by (cases st)
  let ?st' = "(insert (py_get r ''post_id'') ids, m(py_get r ''post_id'' \<mapsto> r))"
  have step: "add_rows (r # rows) st = add_rows rows ?st'"
    by (simp add: add_rows_def st)
  from Cons.prems have rest: "\<forall>r \<in> set rows. py_get r ''post_id'' = pid \<longrightarrow> r = b"
    by simp
  have ih: "snd (add_rows rows ?st') pid
           = (if pid \<in> (\<lambda>r. py_get r ''post_id'') ` set rows then Some b else snd ?st' pid)"
    by (rule Cons.IH [OF rest])
  show ?case
  proof (cases "py_get r ''post_id'' = pid")
    case True
    with Cons.prems have "r = b" by simp
    with True ih show ?thesis unfolding step by (simp add: st)
  next
    case False
    with ih show ?thesis unfolding step by (auto simp: st)
  qed
qed

lemma select_in_keys:
  "(\<lambda>r. py_get r ''post_id'') ` set (select_in table batch)
     = {k \<in> (\<lambda>r. py_get r ''post_id'') ` set table. k \<in> set batch}"
  by (auto simp: select_in_def key_selected image_iff)

lemma select_in_unique:
  assumes "\<forall>r \<in> set table. py_get r ''post_id'' = pid \<longrightarrow> r = base"
  shows "\<forall>r \<in> set (select_in table batch). py_get r ''post_id'' = pid \<longrightarrow> r = base |` set SELECTED"
  using assms by (auto simp: select_in_def key_selected)

lemma lookup_fold_fst:
  "fst (foldl (\<lambda>st batch. add_rows (select_in table batch) st) st bs)
     = fst st \<union> {k \<in> (\<lambda>r. py_get r ''post_id'') ` set table. k \<in> (\<Union>b \<in> set bs. set b)}"
proof (induction bs arbitrary: st)
  case Nil
  then show ?case by simp
next
  case (Cons batch bs)
  show ?case
    unfolding foldl_Cons Cons.IH add_rows_fst select_in_keys by auto
qed

lemma lookup_fold_snd:
  assumes "\<forall>r \<in> set table. py_get r ''post_id'' = pid \<longrightarrow> r = base"
  shows "snd (foldl (\<lambda>st batch. add_rows (select_in table batch) st) st bs) pid
     = (if pid \<in> {k \<in> (\<lambda>r. py_get r ''post_id'') ` set table. k \<in> (\<Union>b \<in> set bs. set b)}
        then Some (base |` set SELECTED) else snd st pid)"
proof (induction bs arbitrary: st)
  case Nil
  then show ?case by simp
next
  case (Cons batch bs)
  note A = add_rows_snd [OF select_in_unique [OF assms, of batch], of st]
  show ?case
    unfolding foldl_Cons Cons.IH A select_in_keys by auto
qed

lemma lookup_existing_fst:
  "fst (lookup_existing table ids) = {k \<in> (\<lambda>r. py_get r ''post_id'') ` set table. k \<in> set ids}"
  using lookup_fold_fst [of table "({}, Map.empty)" "chunks 1000 ids"] Union_chunks [of 1000 ids]
  by (simp add: lookup_existing_def)

lemma lookup_existing_at:
  assumes "base \<in> set table" "py_get base ''post_id'' = pid"
    and "\<forall>r \<in> set table. py_get r ''post_id'' = pid \<longrightarrow> r = base"
    and "pid \<in> set ids"
  shows "pid \<in> fst (lookup_existing table ids)
       \<and> snd (lookup_existing table ids) pid = Some (base |` set SELECTED)"
proof -
  from assms(1,2,4) have m: "pid \<in> {k \<in> (\<lambda>r. py_get r ''post_id'') ` set table. k \<in> set ids}"
    by auto
  have "snd (lookup_existing table ids) pid = Some (base |` set SELECTED)"
    using lookup_fold_snd [OF assms(3), of "({}, Map.empty)" "chunks 1000 ids"]
      Union_chunks [of 1000 ids] m
    by (simp add: lookup_existing_def)
  with m show ?thesis by (simp add: lookup_existing_fst)
qed

lemma distinct_NUMERIC_FIELDS: "distinct NUMERIC_FIELDS"
  by (simp add: NUMERIC_FIELDS_def)

lemma rates_not_numeric: "''ctr'' \<notin> set NUMERIC_FIELDS" "''engagement_rate'' \<notin> set NUMERIC_FIELDS"
  "''post_id'' \<notin> set NUMERIC_FIELDS" "''date_collected'' \<notin> set NUMERIC_FIELDS"
  "''company_id'' \<notin> set NUMERIC_FIELDS"
  by (simp_all add: NUMERIC_FIELDS_def)

lemma pop_date_collected_apply:
  "pop_date_collected p k = (if k = ''date_collected'' then None else p k)"
  by (simp add: pop_date_collected_def)

lemma batch_of_calls:
  "c \<in> set (map Insert xs @ map Upsert ys) \<Longrightarrow> batch_of c \<in> set xs \<union> set ys"
  by auto

lemma split_posts_Cons_Inr:
  assumes "split_posts pol E R (a # posts) = Inr (new, upd)"
  shows "\<exists>apid n' u'. a ''post_id'' = Some apid \<and> split_posts pol E R posts = Inr (n', u')
           \<and> (if apid \<in> E
               then new = n' \<and> (\<exists>u. update_record pol R apid (pop_date_collected a) = Inr u \<and> upd = u # u')
               else new = pop_date_collected a # n' \<and> upd = u')"
proof -
  from assms obtain apid where k: "a ''post_id'' = Some apid"
    by (cases "a ''post_id''") (simp_all add: Let_def)
  from assms k have nl: "\<And>l. apid \<noteq> PList l"
    by (auto simp: Let_def)
  from assms k nl obtain n' u' where r: "split_posts pol E R posts = Inr (n', u')"
    by (cases "split_posts pol E R posts") (auto simp: Let_def split: pyval.splits if_splits sum.splits)
  from assms k nl r show ?thesis
    by (cases apid) (auto simp: Let_def split: if_splits sum.splits)
qed

lemma split_posts_existing:
  assumes "split_posts pol E R posts = Inr (new_posts, update_posts)"
    and "p \<in> set posts" "p ''post_id'' = Some pid" "pid \<in> E"
  shows "\<exists>u \<in> set update_posts. update_record pol R pid (pop_date_collected p) = Inr u"
  using assms
proof (induction posts arbitrary: new_posts update_posts)
  case Nil
  then show ?case by simp
next
  case (Cons a posts)
  from split_posts_Cons_Inr [OF Cons.prems(1)] obtain apid n' u' where
    k: "a ''post_id'' = Some apid" and r: "split_posts pol E R posts = Inr (n', u')"
    and c: "if apid \<in> E
               then new_posts = n' \<and> (\<exists>u. update_record pol R apid (pop_date_collected a) = Inr u
                                        \<and> update_posts = u # u')
               else new_posts = pop_date_collected a # n' \<and> update_posts = u'"
    by blast
  show ?case
  proof (cases "p = a")
    case True
    with k Cons.prems(3) have "apid = pid" by simp
    with c Cons.prems(4) True show ?thesis by auto
  next
    case False
    with Cons.prems(2) have "p \<in> set posts" by simp
    from Cons.IH [OF r this Cons.prems(3) Cons.prems(4)] c show ?thesis
      by (auto split: if_splits)
  qed
qed

lemma merge_field_apply:
  "merge_field base q f k
     = (if k = f then Some (PInt (max (u_safe_int (py_get base f)) (u_safe_int (py_get q f)))) else q k)"
  by (simp add: merge_field_def)

lemma merge_fold_other:
  "f \<notin> set fs \<Longrightarrow> foldl (merge_field base) q fs f = q f"
proof (induction fs arbitrary: q)
  case Nil
  then show ?case by simp
next
  case (Cons g fs)
  then have "f \<noteq> g" "f \<notin> set fs" by simp_all
  have a: "merge_field base q g f = q f"
    using \<open>f \<noteq> g\<close> by (simp add: merge_field_apply)
  have "foldl (merge_field base) q (g # fs) f = foldl (merge_field base) (merge_field base q g) fs f"
    by (simp only: foldl_Cons)
  also have "\<dots> = merge_field base q g f"
    by (rule Cons.IH [OF \<open>f \<notin> set fs\<close>])
  finally show ?case using a by (simp only:)
qed

lemma merge_fold_field:
  "distinct fs \<Longrightarrow> f \<in> set fs \<Longrightarrow>
     foldl (merge_field base) q fs f
       = Some (PInt (max (u_safe_int (py_get base f)) (u_safe_int (py_get q f))))"
proof (induction fs arbitrary: q)
  case Nil
  then show ?case by simp
next
  case (Cons g fs)
  have step: "foldl (merge_field base) q (g # fs) f
      = foldl (merge_field base) (merge_field base q g) fs f"
    by (simp only: foldl_Cons)
  show ?case
  proof (cases "f = g")
    case True
    with Cons.prems have "f \<notin> set fs" by simp
    then have "foldl (merge_field base) (merge_field base q g) fs f = merge_field base q g f"
      by (rule merge_fold_other)
    also have "\<dots> = Some (PInt (max (u_safe_int (py_get base f)) (u_safe_int (py_get q f))))"
      using True by (simp add: merge_field_apply)
    finally show ?thesis using step by (simp only:)
  next
    case False
    with Cons.prems have "distinct fs" "f \<in> set fs" by simp_all
    from Cons.IH [OF this, of "merge_field base q g"]
    have "foldl (merge_field base) (merge_field base q g) fs f
        = Some (PInt (max (u_safe_int (py_get base f)) (u_safe_int (py_get (merge_field base q g) f))))" .
    also have "py_get (merge_field base q g) f = py_get q f"
      using False by (simp add: py_get_def merge_field_apply)
    finally show ?thesis using step by (simp only:)
  qed
qed

lemma merge_fold_get:
  "f \<in> set NUMERIC_FIELDS \<Longrightarrow>
     u_safe_int (py_get (foldl (merge_field base) q NUMERIC_FIELDS) f) = merged base q f"
  by (simp add: py_get_def merged_def merge_fold_field [OF distinct_NUMERIC_FIELDS])

lemma numeric_fields_mem:
  "''impressions'' \<in> set NUMERIC_FIELDS" "''clicks'' \<in> set NUMERIC_FIELDS"
  "''likes'' \<in> set NUMERIC_FIELDS" "''comments'' \<in> set NUMERIC_FIELDS"
  "''shares'' \<in> set NUMERIC_FIELDS" "''reach'' \<in> set NUMERIC_FIELDS"
  by (simp_all add: NUMERIC_FIELDS_def)

lemma recompute_Inr:
  assumes "u_recompute_rates rec = Inr r"
  shows "\<exists>rc er. rate_ctr (u_safe_int (py_get rec ''clicks'')) (u_safe_int (py_get rec ''impressions'')) = Inr rc
           \<and> rate_er (u_safe_int (py_get rec ''likes'')) (u_safe_int (py_get rec ''comments''))
                      (u_safe_int (py_get rec ''shares'')) (u_safe_int (py_get rec ''clicks''))
                      (u_safe_int (py_get rec ''impressions'')) = Inr er
           \<and> r = rec(''ctr'' \<mapsto> PFloat rc, ''engagement_rate'' \<mapsto> PFloat (py_min er (Fin 100)))"
  using assms by (auto simp: u_recompute_rates_def Let_def split: sum.splits)

lemma recompute_frame:
  "u_recompute_rates rec = Inr r \<Longrightarrow> k \<noteq> ''ctr'' \<Longrightarrow> k \<noteq> ''engagement_rate'' \<Longrightarrow> r k = rec k"
  by (auto dest!: recompute_Inr)

lemma merge_max_numeric:
  assumes "merge_max base q = Inr m" "f \<in> set NUMERIC_FIELDS"
  shows "m f = Some (PInt (merged base q f))"
proof -
  from assms(2) rates_not_numeric have "f \<noteq> ''ctr''" "f \<noteq> ''engagement_rate''" by auto
  from recompute_frame [OF assms(1) [unfolded merge_max_def] this]
  show ?thesis
    by (simp add: merged_def merge_fold_field [OF distinct_NUMERIC_FIELDS assms(2)])
qed

lemma merge_max_frame:
  "merge_max base q = Inr m \<Longrightarrow> k \<notin> set NUMERIC_FIELDS \<Longrightarrow> k \<noteq> ''ctr'' \<Longrightarrow>
     k \<noteq> ''engagement_rate'' \<Longrightarrow> m k = q k"
  unfolding merge_max_def by (simp add: recompute_frame merge_fold_other)

lemma merge_max_rates:
  assumes "merge_max base q = Inr m"
  shows "\<exists>rc er. rate_ctr (merged base q ''clicks'') (merged base q ''impressions'') = Inr rc
           \<and> rate_er (merged base q ''likes'') (merged base q ''comments'') (merged base q ''shares'')
                      (merged base q ''clicks'') (merged base q ''impressions'') = Inr er
           \<and> m ''ctr'' = Some (PFloat rc)
           \<and> m ''engagement_rate'' = Some (PFloat (py_min er (Fin 100)))"
  using recompute_Inr [OF assms [unfolded merge_max_def]]
  by (auto simp: merge_fold_get numeric_fields_mem)

lemma int_truediv_returns:
  assumes "0 < b" "\<bar>a\<bar> < 2 ^ 1002"
  shows "\<exists>r. int_truediv a b = Inr r"
proof -
  have b1: "(1::rat) \<le> of_int b" using assms(1) by simp
  have "\<bar>of_int a / of_int b :: rat\<bar> = \<bar>of_int a\<bar> / of_int b"
    using assms(1) by (simp add: abs_divide)
  also have "\<dots> \<le> \<bar>of_int a\<bar> / 1"
    by (rule divide_left_mono [OF b1]) (use assms(1) in simp_all)
  finally have "\<bar>of_int a / of_int b :: rat\<bar> \<le> of_int \<bar>a\<bar>" by simp
  also have "(of_int \<bar>a\<bar> :: rat) < of_int (2 ^ 1002)"
    using assms(2) by (simp only: of_int_less_iff)
  also have "(of_int (2 ^ 1002) :: rat) = two_pow 1002" by (simp add: two_pow_def)
  also have "two_pow 1002 < two_pow 1023" by (rule two_pow_strict_mono) simp
  finally obtain y where "to_double (of_int a / of_int b) = Fin y"
    using to_double_finite by blast
  with assms(1) show ?thesis by (simp add: int_truediv_def)
qed

lemma rate_ctr_returns: "\<bar>c\<bar> < 2 ^ 1000 \<Longrightarrow> \<exists>x. rate_ctr c i = Inr x"
proof (cases "0 < i")
  case True
  assume "\<bar>c\<bar> < 2 ^ 1000"
  also have "(2::int) ^ 1000 < 2 ^ 1002" by (rule power_strict_increasing) simp_all
  finally obtain r where "int_truediv c i = Inr r" using int_truediv_returns [OF True] by blast
  with True show ?thesis by (simp add: rate_ctr_def)
next
  case False
  then show ?thesis by (simp add: rate_ctr_def)
qed

lemma rate_er_returns:
  assumes "\<bar>l\<bar> < 2 ^ 1000" "\<bar>m\<bar> < 2 ^ 1000" "\<bar>s\<bar> < 2 ^ 1000" "\<bar>c\<bar> < 2 ^ 1000"
  shows "\<exists>x. rate_er l m s c i = Inr x"
proof (cases "0 < i")
  case True
  have "(2::int) ^ 1002 = 4 * 2 ^ 1000"
    using power_add [of "2::int" 2 1000] by simp
  with assms have "\<bar>l + m + s + c\<bar> < 2 ^ 1002" by linarith
  from int_truediv_returns [OF True this] obtain r where "int_truediv (l + m + s + c) i = Inr r"
    by blast
  with True show ?thesis by (simp add: rate_er_def)
next
  case False
  then show ?thesis by (simp add: rate_er_def)
qed

lemma small_countsD: "small_counts d \<Longrightarrow> f \<in> set NUMERIC_FIELDS \<Longrightarrow> \<bar>u_safe_int (py_get d f)\<bar> < 2 ^ 1000"
  by (simp add: small_counts_def list_all_iff)

lemma merged_small:
  "small_counts base \<Longrightarrow> small_counts q \<Longrightarrow> f \<in> set NUMERIC_FIELDS \<Longrightarrow> \<bar>merged base q f\<bar> < 2 ^ 1000"
  using small_countsD [of base f] small_countsD [of q f] by (simp add: merged_def max_def)

lemma merge_max_returns:
  assumes "small_counts base" "small_counts q"
  shows "\<exists>m. merge_max base q = Inr m"
proof -
  note S = merged_small [OF assms]
  from rate_ctr_returns [OF S [OF numeric_fields_mem(2)]] obtain rc where
    rc: "rate_ctr (merged base q ''clicks'') (merged base q ''impressions'') = Inr rc" by blast
  from rate_er_returns [OF S [OF numeric_fields_mem(3)] S [OF numeric_fields_mem(4)]
      S [OF numeric_fields_mem(5)] S [OF numeric_fields_mem(2)]] obtain er where
    er: "rate_er (merged base q ''likes'') (merged base q ''comments'') (merged base q ''shares'')
           (merged base q ''clicks'') (merged base q ''impressions'') = Inr er" by blast
  show ?thesis
    unfolding merge_max_def u_recompute_rates_def Let_def
    by (simp add: merge_fold_get numeric_fields_mem rc er)
qed

lemma small_counts_cong:
  "(\<And>f. f \<in> set NUMERIC_FIELDS \<Longrightarrow> d f = d' f) \<Longrightarrow> small_counts d = small_counts d'"
  by (simp add: small_counts_def list_all_iff py_get_def)

lemma small_counts_empty: "small_counts Map.empty"
  by (simp add: small_counts_def list_all_iff py_get_def)

lemma small_counts_pop: "small_counts (pop_date_collected p) = small_counts p"
  by (rule small_counts_cong) (use rates_not_numeric in \<open>auto simp: pop_date_collected_apply\<close>)

lemma small_counts_company: "small_counts (p(''company_id'' \<mapsto> v)) = small_counts p"
  by (rule small_counts_cong) (use rates_not_numeric in auto)

lemma small_counts_selected: "small_counts (r |` set SELECTED) = small_counts r"
  by (rule small_counts_cong) (simp add: SELECTED_def restrict_map_def)

lemma add_rows_ran:
  assumes "\<forall>k b. snd st k = Some b \<longrightarrow> P b" "\<forall>r \<in> set rows. P r"
  shows "\<forall>k b. snd (add_rows rows st) k = Some b \<longrightarrow> P b"
  using assms
proof (induction rows arbitrary: st)
  case Nil
  then show ?case by (simp add: add_rows_def)
next
  case (Cons r rows)
  obtain ids m where st: "st = (ids, m)" by (cases st)
  let ?st' = "(insert (py_get r ''post_id'') ids, m(py_get r ''post_id'' \<mapsto> r))"
  have step: "add_rows (r # rows) st = add_rows rows ?st'"
    by (simp add: add_rows_def st)
  have "\<forall>k b. snd ?st' k = Some b \<longrightarrow> P b" using Cons.prems by (auto simp: st)
  moreover have "\<forall>r \<in> set rows. P r" using Cons.prems by simp
  ultimately show ?case unfolding step by (rule Cons.IH)
qed

lemma lookup_fold_ran:
  assumes "\<forall>k b. snd st k = Some b \<longrightarrow> P b" "\<forall>r \<in> set table. P (r |` set SELECTED)"
  shows "\<forall>k b. snd (foldl (\<lambda>st batch. add_rows (select_in table batch) st) st bs) k = Some b \<longrightarrow> P b"
  using assms(1)
proof (induction bs arbitrary: st)
  case Nil
  then show ?case by simp
next
  case (Cons batch bs)
  have "\<forall>r \<in> set (select_in table batch). P r" using assms(2) by (auto simp: select_in_def)
  from add_rows_ran [OF Cons.prems this] show ?case
    unfolding foldl_Cons by (rule Cons.IH)
qed

lemma lookup_existing_small:
  assumes "\<forall>r \<in> set table. small_counts r" "snd (lookup_existing table ids) k = Some b"
  shows "small_counts b"
proof -
  have "\<forall>k b. snd ({}::pyval set, Map.empty :: pyval \<rightharpoonup> pydict) k = Some b \<longrightarrow> small_counts b" by simp
  moreover have "\<forall>r \<in> set table. small_counts (r |` set SELECTED)"
    using assms(1) by (simp add: small_counts_selected)
  ultimately have "\<forall>k b. snd (lookup_existing table ids) k = Some b \<longrightarrow> small_counts b"
    unfolding lookup_existing_def by (rule lookup_fold_ran)
  with assms(2) show ?thesis by blast
qed

lemma update_record_max:
  "update_record ''max'' R pid q = merge_max (case R pid of None \<Rightarrow> Map.empty | Some b \<Rightarrow> b) q"
  by (simp add: update_record_def)

lemma update_record_returns:
  assumes "policy = ''max'' \<Longrightarrow> small_counts q \<and> (\<forall>b. R pid = Some b \<longrightarrow> small_counts b)"
  shows "\<exists>u. update_record policy R pid q = Inr u"
proof (cases "policy = ''max''")
  case True
  with assms have q: "small_counts q" and b: "\<forall>b. R pid = Some b \<longrightarrow> small_counts b" by simp_all
  from b have "small_counts (case R pid of None \<Rightarrow> Map.empty | Some b \<Rightarrow> b)"
    by (cases "R pid") (simp_all add: small_counts_empty)
  from merge_max_returns [OF this q] True show ?thesis by (simp add: update_record_def)
next
  case False
  then show ?thesis by (simp add: update_record_def)
qed

lemma split_posts_returns:
  assumes "\<forall>p \<in> set posts. \<exists>pid. p ''post_id'' = Some pid \<and> (\<forall>l. pid \<noteq> PList l)"
    and "policy = ''max'' \<Longrightarrow> (\<forall>p \<in> set posts. small_counts p) \<and> (\<forall>k b. R k = Some b \<longrightarrow> small_counts b)"
  shows "\<exists>r. split_posts policy E R posts = Inr r"
  using assms
proof (induction posts)
  case Nil
  then show ?case by simp
next
  case (Cons a posts)
  then obtain r where r: "split_posts policy E R posts = Inr r" by auto
  obtain n u where nu: "r = (n, u)" by (cases r)
  from Cons.prems obtain pid where id: "a ''post_id'' = Some pid" "\<And>l. pid \<noteq> PList l" by auto
  have "policy = ''max'' \<Longrightarrow> small_counts (pop_date_collected a) \<and> (\<forall>b. R pid = Some b \<longrightarrow> small_counts b)"
    using Cons.prems(2) by (simp add: small_counts_pop)
  from update_record_returns [of policy "pop_date_collected a" R pid, OF this] obtain v where
    v: "update_record policy R pid (pop_date_collected a) = Inr v" by blast
  from r nu id v show ?case by (cases pid) (auto simp: Let_def)
qed

lemma upsert_posts_returns:
  assumes "\<forall>p \<in> set posts. \<exists>pid. p ''post_id'' = Some pid \<and> (\<forall>l. pid \<noteq> PList l)"
    and "policy = ''max'' \<Longrightarrow> (\<forall>p \<in> set posts. small_counts p) \<and> (\<forall>r \<in> set table. small_counts r)"
  shows "\<exists>calls. upsert_posts policy company_id table posts = Inr calls"
proof (cases "posts = []")
  case True
  then show ?thesis by (simp add: upsert_posts_def)
next
  case False
  let ?posts = "map (\<lambda>p. p(''company_id'' \<mapsto> PStr company_id)) posts"
  let ?ids = "map (\<lambda>p. py_get p ''post_id'') (filter (\<lambda>p. py_truthy (py_get p ''post_id'')) ?posts)"
  have a: "\<forall>p \<in> set ?posts. \<exists>pid. p ''post_id'' = Some pid \<and> (\<forall>l. pid \<noteq> PList l)"
    using assms(1) by auto
  have b: "policy = ''max'' \<Longrightarrow> (\<forall>p \<in> set ?posts. small_counts p)
        \<and> (\<forall>k b. snd (lookup_existing table ?ids) k = Some b \<longrightarrow> small_counts b)"
    using assms(2) lookup_existing_small [of table ?ids] by (auto simp: small_counts_company)
  from split_posts_returns [OF a b] obtain r where
    "split_posts policy (fst (lookup_existing table ?ids)) (snd (lookup_existing table ?ids)) ?posts = Inr r"
    by blast
  with False show ?thesis
    by (simp add: upsert_posts_def Let_def split_beta)
qed

lemma upsert_posts_Inr:
  assumes "upsert_posts policy company_id table posts = Inr calls" "posts \<noteq> []"
  shows "\<exists>new_posts update_posts.
           split_posts policy
             (fst (lookup_existing table
                (map (\<lambda>p. py_get p ''post_id'')
                   (filter (\<lambda>p. py_truthy (py_get p ''post_id''))
                      (map (\<lambda>p. p(''company_id'' \<mapsto> PStr company_id)) posts)))))
             (snd (lookup_existing table
                (map (\<lambda>p. py_get p ''post_id'')
                   (filter (\<lambda>p. py_truthy (py_get p ''post_id''))
                      (map (\<lambda>p. p(''company_id'' \<mapsto> PStr company_id)) posts)))))
             (map (\<lambda>p. p(''company_id'' \<mapsto> PStr company_id)) posts)
           = Inr (new_posts, update_posts)
         \<and> calls = map Insert (chunks 100 new_posts) @ map Upsert (chunks 100 update_posts)"
  using assms
  by (auto simp: upsert_posts_def Let_def split_beta split: sum.splits)

lemma update_record_date_collected:
  assumes "update_record pol R pid (pop_date_collected a) = Inr u"
  shows "u ''date_collected'' = None"
proof (cases "pol = ''max''")
  case True
  with assms have "merge_max (case R pid of None \<Rightarrow> Map.empty | Some b \<Rightarrow> b) (pop_date_collected a) = Inr u"
    by (simp add: update_record_def)
  from merge_max_frame [OF this, of "''date_collected''"] show ?thesis
    by (simp add: rates_not_numeric pop_date_collected_apply)
next
  case False
  with assms show ?thesis by (auto simp: update_record_def pop_date_collected_apply)
qed

lemma split_posts_sent:
  assumes "split_posts pol E R posts = Inr (new_posts, update_posts)"
  shows "(\<forall>q \<in> set new_posts \<union> set update_posts. q ''date_collected'' = None)
       \<and> length new_posts + length update_posts = length posts
       \<and> (\<forall>q \<in> set new_posts. \<exists>p \<in> set posts. q = pop_date_collected p)"
  using assms
proof (induction posts arbitrary: new_posts update_posts)
  case Nil
  then show ?case by simp
next
  case (Cons a posts)
  from split_posts_Cons_Inr [OF Cons.prems] obtain apid n' u' where
    r: "split_posts pol E R posts = Inr (n', u')"
    and c: "if apid \<in> E
               then new_posts = n' \<and> (\<exists>u. update_record pol R apid (pop_date_collected a) = Inr u
                                        \<and> update_posts = u # u')
               else new_posts = pop_date_collected a # n' \<and> update_posts = u'"
    by blast
  have d1: "pop_date_collected a ''date_collected'' = None"
    by (simp add: pop_date_collected_apply)
  note IH = Cons.IH [OF r]
  show ?case
  proof (cases "apid \<in> E")
    case True
    with c obtain u where "new_posts = n'" "update_record pol R apid (pop_date_collected a) = Inr u"
      "update_posts = u # u'"
      by auto
    with IH update_record_date_collected [of pol R apid a u] show ?thesis by auto
  next
    case False
    with c have "new_posts = pop_date_collected a # n'" "update_posts = u'" by simp_all
    with IH d1 show ?thesis by auto
  qed
qed

lemma rate_ctr_not_nan: "rate_ctr c i = Inr x \<Longrightarrow> x \<noteq> NaN"
  by (auto simp: rate_ctr_def dbl_times_def dbl_round_not_nan to_double_not_nan split: if_splits sum.splits)

lemma rate_er_not_nan: "rate_er l m s c i = Inr x \<Longrightarrow> x \<noteq> NaN"
  by (auto simp: rate_er_def dbl_times_def dbl_round_not_nan to_double_not_nan split: if_splits sum.splits)

lemma py_min_capped_not_nan: "a \<noteq> NaN \<Longrightarrow> fl_le (py_min a (Fin 100)) (Fin 100)"
  by (cases a) (auto simp: py_min_def fl_le_def)

lemma split_posts_Cons:
  assumes "a ''post_id'' = Some pid" "\<And>l. pid \<noteq> PList l"
  shows "split_posts pol E R (a # ps)
       = (if pid \<in> E then
            (case update_record pol R pid (pop_date_collected a) of
               Inl e \<Rightarrow> Inl e
             | Inr u \<Rightarrow>
                 (case split_posts pol E R ps of
                    Inl e \<Rightarrow> Inl e
                  | Inr (new_posts, update_posts) \<Rightarrow> Inr (new_posts, u # update_posts)))
          else
            (case split_posts pol E R ps of
               Inl e \<Rightarrow> Inl e
             | Inr (new_posts, update_posts) \<Rightarrow> Inr (pop_date_collected a # new_posts, update_posts)))"
  using assms by (cases pid) (auto simp: Let_def)

lemma upsert_posts_single:
  assumes "p ''post_id'' = Some pid" "py_truthy pid" "\<And>l. pid \<noteq> PList l"
    and "py_get base ''post_id'' = pid"
  shows "upsert_posts ''max'' cid [base] [p]
       = (case merge_max (base |` set SELECTED) (pop_date_collected (p(''company_id'' \<mapsto> PStr cid))) of
            Inl e \<Rightarrow> Inl e
          | Inr u \<Rightarrow> Inr [Upsert [u]])"
proof -
  let ?p = "p(''company_id'' \<mapsto> PStr cid)"
  have g: "py_get ?p ''post_id'' = pid" using assms(1) by (simp add: py_get_def)
  have ids: "map (\<lambda>p. py_get p ''post_id'')
               (filter (\<lambda>p. py_truthy (py_get p ''post_id''))
                  (map (\<lambda>p. p(''company_id'' \<mapsto> PStr cid)) [p])) = [pid]"
    using g assms(2) by simp
  have "base \<in> set [base]" "\<forall>r \<in> set [base]. py_get r ''post_id'' = pid \<longrightarrow> r = base" "pid \<in> set [pid]"
    by simp_all
  from lookup_existing_at [OF this(1) assms(4) this(2,3)]
  have E: "pid \<in> fst (lookup_existing [base] [pid])"
    and R: "snd (lookup_existing [base] [pid]) pid = Some (base |` set SELECTED)"
    by simp_all
  have id: "?p ''post_id'' = Some pid" using assms(1) by simp
  have sp: "split_posts ''max'' (fst (lookup_existing [base] [pid])) (snd (lookup_existing [base] [pid])) [?p]
      = (case merge_max (base |` set SELECTED) (pop_date_collected ?p) of
           Inl e \<Rightarrow> Inl e
         | Inr u \<Rightarrow> Inr ([], [u]))"
    unfolding split_posts_Cons [of ?p pid, OF id assms(3)]
    by (simp add: E R update_record_max split: sum.splits)
  have c1: "chunks 100 [u] = [[u]]" for u :: pydict
    by (simp add: chunks_step chunks_Nil)
  show ?thesis
    unfolding upsert_posts_def Let_def ids
    by (simp add: split_beta sp chunks_Nil c1 del: split_posts.simps split: sum.splits)
qed

lemma recomputed_engagement_rate_capped:
  assumes "u_recompute_rates rec = Inr r"
  shows "\<exists>e. r ''engagement_rate'' = Some (PFloat e) \<and> fl_le e (Fin 100)"
proof -
  from recompute_Inr [OF assms] obtain rc er where
    er: "rate_er (u_safe_int (py_get rec ''likes'')) (u_safe_int (py_get rec ''comments''))
                 (u_safe_int (py_get rec ''shares'')) (u_safe_int (py_get rec ''clicks''))
                 (u_safe_int (py_get rec ''impressions'')) = Inr er"
    and r: "r = rec(''ctr'' \<mapsto> PFloat rc, ''engagement_rate'' \<mapsto> PFloat (py_min er (Fin 100)))"
    by blast
  from py_min_capped_not_nan [OF rate_er_not_nan [OF er]] r show ?thesis by simp
qed

section \<open>The max merge policy\<close>

text \<open>
  Claim C1, as amended. Under the merge policy \<open>max\<close>, when the run returns, for every record
  whose identity already exists in the store (a row \<open>base\<close> of the post table, the only one
  with that identity) some record \<open>q\<close> sent by upsert carries, for every tracked numeric
  field (impressions, clicks, likes, comments, shares, reach), the larger of the persisted
  and the incoming value, each as \<open>_safe_int\<close> reads it. A persisted integer count therefore
  never decreases, is unchanged when the incoming count is not larger, and with an incoming
  integer the value written is \<open>max\<close> of the two. The \<open>ctr\<close> and the \<open>engagement_rate\<close> of
  \<open>q\<close> are recomputed from the merged counts: \<open>0.0\<close> when the merged impressions are not
  positive, otherwise the quotient of the merged clicks (of the merged likes, comments,
  shares and clicks) by the merged impressions as a float, times \<open>100.0\<close>, rounded to six
  decimals, the engagement rate capped at \<open>100.0\<close>. The identity is one that the lookup
  sends to the store (a truthy value, as every 16-character id is).
\<close>

theorem upsert_posts_max_merge:
  assumes run: "upsert_posts ''max'' company_id table posts = Inr calls"
    and p: "p \<in> set posts" and pid: "p ''post_id'' = Some pid" and truthy: "py_truthy pid"
    and base: "base \<in> set table" "py_get base ''post_id'' = pid"
    and uniq: "\<forall>r \<in> set table. py_get r ''post_id'' = pid \<longrightarrow> r = base"
  shows "\<exists>q \<in> set (upserted calls).
            q ''post_id'' = Some pid
          \<and> (\<forall>f \<in> set NUMERIC_FIELDS.
                q f = Some (PInt (max (u_safe_int (py_get base f)) (u_safe_int (py_get p f)))))
          \<and> (\<forall>f \<in> set NUMERIC_FIELDS. \<forall>b. py_get base f = PInt b \<longrightarrow>
                (\<exists>w. q f = Some (PInt w) \<and> b \<le> w \<and> (u_safe_int (py_get p f) \<le> b \<longrightarrow> w = b)
                   \<and> (\<forall>n. py_get p f = PInt n \<longrightarrow> w = max b n)))
          \<and> (if 0 < merged base p ''impressions''
              then \<exists>r s. to_double (of_int (merged base p ''clicks'')
                                     / of_int (merged base p ''impressions'')) = Fin r
                       \<and> to_double (of_int (merged base p ''likes'' + merged base p ''comments''
                                             + merged base p ''shares'' + merged base p ''clicks'')
                                     / of_int (merged base p ''impressions'')) = Fin s
                       \<and> q ''ctr'' = Some (PFloat (dbl_round 6 (to_double (r * 100))))
                       \<and> q ''engagement_rate''
                           = Some (PFloat (py_min (dbl_round 6 (to_double (s * 100))) (Fin 100)))
              else q ''ctr'' = Some (PFloat (Fin 0)) \<and> q ''engagement_rate'' = Some (PFloat (Fin 0)))
          \<and> (\<exists>e. q ''engagement_rate'' = Some (PFloat e) \<and> fl_le e (Fin 100))"
proof -
  let ?posts = "map (\<lambda>p. p(''company_id'' \<mapsto> PStr company_id)) posts"
  let ?ids = "map (\<lambda>p. py_get p ''post_id'') (filter (\<lambda>p. py_truthy (py_get p ''post_id'')) ?posts)"
  let ?p = "p(''company_id'' \<mapsto> PStr company_id)"
  from p have ne: "posts \<noteq> []" by auto
  from upsert_posts_Inr [OF run ne] obtain new_posts update_posts where
    sp: "split_posts ''max'' (fst (lookup_existing table ?ids)) (snd (lookup_existing table ?ids)) ?posts
           = Inr (new_posts, update_posts)"
    and calls: "calls = map Insert (chunks 100 new_posts) @ map Upsert (chunks 100 update_posts)"
    by blast
  have p_in: "?p \<in> set ?posts" using p by simp
  have p_id: "?p ''post_id'' = Some pid" using pid by simp
  have "py_get ?p ''post_id'' = pid" using pid by (simp add: py_get_def)
  with p_in truthy have id_in: "pid \<in> set ?ids" by force
  note L = lookup_existing_at [OF base uniq id_in]
  let ?base = "base |` set SELECTED"
  let ?q = "pop_date_collected ?p"
  from L have R: "snd (lookup_existing table ?ids) pid = Some ?base" by (rule conjunct2)
  from split_posts_existing [OF sp p_in p_id L [THEN conjunct1]] obtain u where
    u_in: "u \<in> set update_posts"
    and "update_record ''max'' (snd (lookup_existing table ?ids)) pid ?q = Inr u"
    by blast
  then have mm: "merge_max ?base ?q = Inr u"
    unfolding update_record_max R by (simp only: option.case)
  from u_in have q_in: "u \<in> set (upserted calls)"
    by (simp add: calls upserted_calls concat_chunks)
  have get_p: "py_get ?q f = py_get p f" if "f \<in> set NUMERIC_FIELDS" for f
    using that rates_not_numeric by (auto simp: py_get_def pop_date_collected_apply)
  have mg: "merged ?base ?q f = merged base p f" if "f \<in> set NUMERIC_FIELDS" for f
    using that by (simp add: merged_def field_selected get_p)
  have num: "u f = Some (PInt (max (u_safe_int (py_get base f)) (u_safe_int (py_get p f))))"
    if "f \<in> set NUMERIC_FIELDS" for f
    using merge_max_numeric [OF mm that] mg [OF that] by (simp add: merged_def)
  have qid: "u ''post_id'' = Some pid"
    using merge_max_frame [OF mm, of "''post_id''"] pid
    by (simp add: rates_not_numeric pop_date_collected_apply)
  have ints: "\<exists>w. u f = Some (PInt w) \<and> b \<le> w \<and> (u_safe_int (py_get p f) \<le> b \<longrightarrow> w = b)
                   \<and> (\<forall>n. py_get p f = PInt n \<longrightarrow> w = max b n)"
    if "f \<in> set NUMERIC_FIELDS" "py_get base f = PInt b" for f b
    using num [OF that(1)] that(2) by auto
  from merge_max_rates [OF mm] obtain rc er where
    rc: "rate_ctr (merged base p ''clicks'') (merged base p ''impressions'') = Inr rc"
    and er: "rate_er (merged base p ''likes'') (merged base p ''comments'') (merged base p ''shares'')
                     (merged base p ''clicks'') (merged base p ''impressions'') = Inr er"
    and uc: "u ''ctr'' = Some (PFloat rc)"
    and ue: "u ''engagement_rate'' = Some (PFloat (py_min er (Fin 100)))"
    by (auto simp: mg numeric_fields_mem)
  have rates: "if 0 < merged base p ''impressions''
              then \<exists>r s. to_double (of_int (merged base p ''clicks'')
                                     / of_int (merged base p ''impressions'')) = Fin r
                       \<and> to_double (of_int (merged base p ''likes'' + merged base p ''comments''
                                             + merged base p ''shares'' + merged base p ''clicks'')
                                     / of_int (merged base p ''impressions'')) = Fin s
                       \<and> u ''ctr'' = Some (PFloat (dbl_round 6 (to_double (r * 100))))
                       \<and> u ''engagement_rate''
                           = Some (PFloat (py_min (dbl_round 6 (to_double (s * 100))) (Fin 100)))
              else u ''ctr'' = Some (PFloat (Fin 0)) \<and> u ''engagement_rate'' = Some (PFloat (Fin 0))"
  proof (cases "0 < merged base p ''impressions''")
    case True
    from rc True obtain r where r: "to_double (of_int (merged base p ''clicks'')
          / of_int (merged base p ''impressions'')) = Fin r" "rc = dbl_round 6 (to_double (r * 100))"
      by (auto simp: rate_ctr_def int_truediv_def dbl_times_def split: pyfloat.splits if_splits)
    from er True obtain s where s: "to_double (of_int (merged base p ''likes'' + merged base p ''comments''
              + merged base p ''shares'' + merged base p ''clicks'')
          / of_int (merged base p ''impressions'')) = Fin s" "er = dbl_round 6 (to_double (s * 100))"
      by (auto simp: rate_er_def int_truediv_def dbl_times_def split: pyfloat.splits if_splits)
    from r s uc ue True show ?thesis by auto
  next
    case False
    with rc er have "rc = Fin 0" "er = Fin 0" by (simp_all add: rate_ctr_def rate_er_def)
    with uc ue False show ?thesis by (simp add: py_min_def)
  qed
  have cap: "\<exists>e. u ''engagement_rate'' = Some (PFloat e) \<and> fl_le e (Fin 100)"
    using ue py_min_capped_not_nan [OF rate_er_not_nan [OF er]] by simp
  from q_in qid num ints rates cap show ?thesis by blast
qed

theorem upsert_posts_max_merge_witness:
  "\<exists>calls. upsert_posts ''max'' ''wentors''
       [[''post_id'' \<mapsto> PStr ''ab12'', ''impressions'' \<mapsto> PInt 2560, ''clicks'' \<mapsto> PInt 10,
         ''likes'' \<mapsto> PInt 5, ''comments'' \<mapsto> PInt 1, ''shares'' \<mapsto> PInt 0, ''reach'' \<mapsto> PInt 100]]
       [[''post_id'' \<mapsto> PStr ''ab12'', ''impressions'' \<mapsto> PInt 80, ''clicks'' \<mapsto> PInt 23,
         ''likes'' \<mapsto> PInt 5, ''comments'' \<mapsto> PInt 0, ''shares'' \<mapsto> PInt 0, ''reach'' \<mapsto> PInt 80,
         ''ctr'' \<mapsto> PFloat (Fin 15), ''date_collected'' \<mapsto> PStr ''2025-01-01'']] = Inr calls
     \<and> (\<exists>q \<in> set (upserted calls).
           q ''post_id'' = Some (PStr ''ab12'')
         \<and> q ''impressions'' = Some (PInt 2560) \<and> q ''clicks'' = Some (PInt 23)
         \<and> q ''comments'' = Some (PInt 1) \<and> q ''reach'' = Some (PInt 100)
         \<and> q ''ctr'' = Some (PFloat (to_double (898437 / 1000000)))
         \<and> q ''engagement_rate'' = Some (PFloat (to_double (1132812 / 1000000))))"
proof -
  let ?base = "[''post_id'' \<mapsto> PStr ''ab12'', ''impressions'' \<mapsto> PInt 2560, ''clicks'' \<mapsto> PInt 10,
         ''likes'' \<mapsto> PInt 5, ''comments'' \<mapsto> PInt 1, ''shares'' \<mapsto> PInt 0, ''reach'' \<mapsto> PInt 100]"
  let ?p = "[''post_id'' \<mapsto> PStr ''ab12'', ''impressions'' \<mapsto> PInt 80, ''clicks'' \<mapsto> PInt 23,
         ''likes'' \<mapsto> PInt 5, ''comments'' \<mapsto> PInt 0, ''shares'' \<mapsto> PInt 0, ''reach'' \<mapsto> PInt 80,
         ''ctr'' \<mapsto> PFloat (Fin 15), ''date_collected'' \<mapsto> PStr ''2025-01-01'']"
  have ids: "\<forall>p \<in> set [?p]. \<exists>pid. p ''post_id'' = Some pid \<and> (\<forall>l. pid \<noteq> PList l)"
    by simp
  have small: "''max'' = ''max'' \<Longrightarrow> (\<forall>p \<in> set [?p]. small_counts p) \<and> (\<forall>r \<in> set [?base]. small_counts r)"
    by (simp add: small_counts_def NUMERIC_FIELDS_def py_get_def)
  from upsert_posts_returns [OF ids small] obtain calls where
    run: "upsert_posts ''max'' ''wentors'' [?base] [?p] = Inr calls"
    by blast
  have h1: "?p \<in> set [?p]" by simp
  have h2: "?p ''post_id'' = Some (PStr ''ab12'')" by simp
  have h3: "py_truthy (PStr ''ab12'')" by simp
  have h4: "?base \<in> set [?base]" by simp
  have h5: "py_get ?base ''post_id'' = PStr ''ab12''" by (simp add: py_get_def)
  have h6: "\<forall>r \<in> set [?base]. py_get r ''post_id'' = PStr ''ab12'' \<longrightarrow> r = ?base" by simp
  have m: "merged ?base ?p ''impressions'' = 2560" "merged ?base ?p ''clicks'' = 23"
    "merged ?base ?p ''likes'' = 5" "merged ?base ?p ''comments'' = 1" "merged ?base ?p ''shares'' = 0"
    by (simp_all add: merged_def py_get_def)
  from upsert_posts_max_merge [OF run h1 h2 h3 h4 h5 h6] obtain q r s where
    q: "q \<in> set (upserted calls)" "q ''post_id'' = Some (PStr ''ab12'')"
    and num: "\<forall>f \<in> set NUMERIC_FIELDS.
                q f = Some (PInt (max (u_safe_int (py_get ?base f)) (u_safe_int (py_get ?p f))))"
    and r: "to_double (of_int 23 / of_int 2560) = Fin r"
    and s: "to_double (of_int (5 + 1 + 0 + 23) / of_int 2560) = Fin s"
    and ctr: "q ''ctr'' = Some (PFloat (dbl_round 6 (to_double (r * 100))))"
    and er: "q ''engagement_rate'' = Some (PFloat (py_min (dbl_round 6 (to_double (s * 100))) (Fin 100)))"
    unfolding m by (simp only: zero_less_numeral if_True) blast
  from num have i: "q ''impressions'' = Some (PInt 2560)" and c: "q ''clicks'' = Some (PInt 23)"
    and mm: "q ''comments'' = Some (PInt 1)" and rr: "q ''reach'' = Some (PInt 100)"
    by (simp_all add: NUMERIC_FIELDS_def py_get_def)
  have "to_double (of_int 23 / of_int 2560) = Fin (2589569785738035 / 288230376151711744)"
    by code_simp
  with r have r': "r = 2589569785738035 / 288230376151711744" by simp
  have "to_double (of_int (5 + 1 + 0 + 23) / of_int 2560) = Fin (6530219459687219 / 576460752303423488)"
    by code_simp
  with s have s': "s = 6530219459687219 / 576460752303423488" by simp
  have "dbl_round 6 (to_double (2589569785738035 / 288230376151711744 * 100)) = to_double (898437 / 1000000)"
    by code_simp
  with ctr r' have ctr': "q ''ctr'' = Some (PFloat (to_double (898437 / 1000000)))" by simp
  have "py_min (dbl_round 6 (to_double (6530219459687219 / 576460752303423488 * 100))) (Fin 100)
      = to_double (1132812 / 1000000)"
    by code_simp
  with er s' have er': "q ''engagement_rate'' = Some (PFloat (to_double (1132812 / 1000000)))" by simp
  from run q i c mm rr ctr' er' show ?thesis by blast
qed

text \<open>
  Claim C1 as stated fails where a persisted value is not an integer: \<open>_safe_int\<close> truncates
  it before the comparison. With the persisted impressions \<open>5.7\<close> and the incoming \<open>3\<close> the
  value written is \<open>5\<close>, which is neither \<open>max(5.7, 3)\<close> nor at least the stored value.
\<close>

theorem upsert_posts_truncates_stored_float:
  "written (upsert_posts ''max'' ''wentors''
       [[''post_id'' \<mapsto> PStr ''ab12'', ''impressions'' \<mapsto> PFloat (Fin (57 / 10))]]
       [[''post_id'' \<mapsto> PStr ''ab12'', ''impressions'' \<mapsto> PInt 3]]) ''impressions'' = [PInt 5]
   \<and> fl_less (Fin 5) (Fin (57 / 10))"
proof -
  let ?base = "[''post_id'' \<mapsto> PStr ''ab12'', ''impressions'' \<mapsto> PFloat (Fin (57 / 10))]"
  let ?p = "[''post_id'' \<mapsto> PStr ''ab12'', ''impressions'' \<mapsto> PInt 3]"
  let ?q = "pop_date_collected (?p(''company_id'' \<mapsto> PStr ''wentors''))"
  have t: "py_trunc (57 / 10) = 5" by code_simp
  have run: "upsert_posts ''max'' ''wentors'' [?base] [?p]
       = (case merge_max (?base |` set SELECTED) ?q of Inl e \<Rightarrow> Inl e | Inr u \<Rightarrow> Inr [Upsert [u]])"
    by (rule upsert_posts_single) (simp_all add: py_get_def)
  have "small_counts (?base |` set SELECTED)" "small_counts ?q"
    by (simp_all add: small_counts_selected small_counts_pop small_counts_company)
       (simp_all add: small_counts_def NUMERIC_FIELDS_def py_get_def t)
  from merge_max_returns [OF this] obtain u where u: "merge_max (?base |` set SELECTED) ?q = Inr u"
    by blast
  have "merged (?base |` set SELECTED) ?q ''impressions'' = 5"
    by (simp add: merged_def py_get_def SELECTED_def NUMERIC_FIELDS_def restrict_map_def
        pop_date_collected_apply t)
  with merge_max_numeric [OF u numeric_fields_mem(1)] have "u ''impressions'' = Some (PInt 5)"
    by simp
  then show ?thesis
    unfolding run u by (simp add: written_def py_get_def)
qed

section \<open>The first-seen timestamp is never written\<close>

text \<open>
  Claim C10. Every record that \<open>upsert_posts\<close> sends to the post store, in an insert batch
  (new records) or an upsert batch (existing records), has no \<open>date_collected\<close> key: the
  caller never supplies it, so the store assigns it on insert and an update leaves the
  persisted value alone. Every post is sent exactly once, in batches of at most 100, and an
  inserted record is the incoming one with the company id set and that key removed.
\<close>

theorem upsert_posts_drops_date_collected:
  assumes "upsert_posts policy company_id table posts = Inr calls"
  shows "(\<forall>c \<in> set calls. \<forall>q \<in> set (batch_of c). q ''date_collected'' = None)
       \<and> (\<forall>c \<in> set calls. batch_of c \<noteq> [] \<and> length (batch_of c) \<le> 100)
       \<and> length (inserted calls) + length (upserted calls) = length posts
       \<and> (\<forall>q \<in> set (inserted calls).
            \<exists>p \<in> set posts. q = pop_date_collected (p(''company_id'' \<mapsto> PStr company_id)))"
proof (cases "posts = []")
  case True
  with assms have "calls = []" by (simp add: upsert_posts_def)
  with True show ?thesis by simp
next
  case False
  let ?posts = "map (\<lambda>p. p(''company_id'' \<mapsto> PStr company_id)) posts"
  from upsert_posts_Inr [OF assms False] obtain E R new_posts update_posts where
    sp: "split_posts policy E R ?posts = Inr (new_posts, update_posts)"
    and calls: "calls = map Insert (chunks 100 new_posts) @ map Upsert (chunks 100 update_posts)"
    by blast
  note S = split_posts_sent [OF sp]
  have ins: "inserted calls = new_posts" and ups: "upserted calls = update_posts"
    by (simp_all add: calls inserted_calls upserted_calls concat_chunks)
  have b: "batch_of c \<in> set (chunks 100 new_posts) \<union> set (chunks 100 update_posts)"
    if "c \<in> set calls" for c
    using that unfolding calls by (rule batch_of_calls)
  have sz: "batch_of c \<noteq> [] \<and> length (batch_of c) \<le> 100" if "c \<in> set calls" for c
    using b [OF that] chunks_bounds [of 100 "batch_of c"] by auto
  have dc: "q ''date_collected'' = None" if "c \<in> set calls" "q \<in> set (batch_of c)" for c q
  proof -
    from b [OF that(1)] that(2) have "q \<in> (\<Union>b \<in> set (chunks 100 new_posts). set b)
        \<or> q \<in> (\<Union>b \<in> set (chunks 100 update_posts). set b)"
      by auto
    then have "q \<in> set new_posts \<union> set update_posts"
      by (simp add: Union_chunks)
    with S show ?thesis by blast
  qed
  have cnt: "length (inserted calls) + length (upserted calls) = length posts"
    using S by (simp add: ins ups)
  have fr: "\<exists>p \<in> set posts. q = pop_date_collected (p(''company_id'' \<mapsto> PStr company_id))"
    if "q \<in> set (inserted calls)" for q
  proof -
    from that S obtain p' where "p' \<in> set ?posts" "q = pop_date_collected p'"
      unfolding ins by blast
    then show ?thesis by auto
  qed
  from dc sz cnt fr show ?thesis by blast
qed

theorem upsert_posts_drops_date_collected_witness:
  "\<exists>calls. upsert_posts ''new'' ''wentors''
       [[''post_id'' \<mapsto> PStr ''ab12'', ''impressions'' \<mapsto> PInt 100]]
       [[''post_id'' \<mapsto> PStr ''ab12'', ''impressions'' \<mapsto> PInt 80,
         ''date_collected'' \<mapsto> PStr ''2025-01-01''],
        [''post_id'' \<mapsto> PStr ''cd34'', ''impressions'' \<mapsto> PInt 7,
         ''date_collected'' \<mapsto> PStr ''2025-01-02'']] = Inr calls
     \<and> list_all (\<lambda>c. list_all (\<lambda>q. q ''date_collected'' = None) (batch_of c)) calls
     \<and> length (inserted calls) + length (upserted calls) = 2"
proof -
  let ?t = "[[''post_id'' \<mapsto> PStr ''ab12'', ''impressions'' \<mapsto> PInt 100]]"
  let ?ps = "[[''post_id'' \<mapsto> PStr ''ab12'', ''impressions'' \<mapsto> PInt 80,
         ''date_collected'' \<mapsto> PStr ''2025-01-01''],
        [''post_id'' \<mapsto> PStr ''cd34'', ''impressions'' \<mapsto> PInt 7,
         ''date_collected'' \<mapsto> PStr ''2025-01-02'']]"
  have ids: "\<forall>p \<in> set ?ps. \<exists>pid. p ''post_id'' = Some pid \<and> (\<forall>l. pid \<noteq> PList l)"
    by simp
  have pol: "''new'' = ''max'' \<Longrightarrow> (\<forall>p \<in> set ?ps. small_counts p) \<and> (\<forall>r \<in> set ?t. small_counts r)"
    by simp
  from upsert_posts_returns [OF ids pol] obtain calls where
    run: "upsert_posts ''new'' ''wentors'' ?t ?ps = Inr calls"
    by blast
  from upsert_posts_drops_date_collected [OF run]
  have "list_all (\<lambda>c. list_all (\<lambda>q. q ''date_collected'' = None) (batch_of c)) calls"
    and "length (inserted calls) + length (upserted calls) = 2"
    by (simp_all add: list_all_iff)
  with run show ?thesis by blast
qed

section \<open>Facts about rounding and the rates\<close>

lemma round_half_even_of_int: "round_half_even (of_int k) = k"
  by (simp add: round_half_even_def)

lemma py_round_idem: "py_round nd (py_round nd x) = py_round nd x"
  by (simp add: py_round_def round_half_even_of_int)

lemma py_round_of_int: "py_round nd (of_int k) = of_int k"
proof -
  have "(of_int k :: rat) * 10 ^ nd = of_int (k * 10 ^ nd)" by simp
  then show ?thesis
    unfolding py_round_def by (simp only: round_half_even_of_int) simp
qed



lemma scale_rate_rounded: "scale_rate f = Fin r \<Longrightarrow> py_round 6 r = r"
  by (cases f) (auto simp: scale_rate_def py_round_idem split: if_splits)


lemma clean_rate_bare_rounded:
  assumes "clean_rate v = Fin r" "\<not> ends_with_percent v"
  shows "py_round 6 r = r"
proof (cases v)
  case PNone
  with assms show ?thesis using py_round_of_int [of 6 0] by simp
next
  case (PInt n)
  with assms show ?thesis by (simp add: scale_rate_rounded)
next
  case (PFloat f)
  with assms show ?thesis
    using py_round_of_int [of 6 0] by (cases f) (auto simp: scale_rate_rounded)
next
  case (PStr s)
  with assms show ?thesis
    using py_round_of_int [of 6 0]
    by (auto simp: Let_def ends_with_percent_def scale_rate_rounded split: option.splits)
next
  case (PList l)
  with assms show ?thesis using py_round_of_int [of 6 0] by simp
qed

lemma clean_rate_fixed:
  assumes "py_round 6 r = r" "\<not> (0 < r \<and> r < 1)"
  shows "clean_rate (PFloat (Fin r)) = Fin r"
  using assms by (auto simp: scale_rate_def)



lemma py_min_capped: "py_min a (Fin 100) = NaN \<or> fl_le (py_min a (Fin 100)) (Fin 100)"
  by (cases a) (auto simp: py_min_def fl_le_def)

lemma py_min_fin_capped: "fl_le (py_min (Fin x) (Fin 100)) (Fin 100)"
  by (auto simp: py_min_def fl_le_def)

lemma engagement_rate_capped_or_nan:
  "engagement_rate (normalize_row row) = NaN
   \<or> fl_le (engagement_rate (normalize_row row)) (Fin 100)"
  by (simp add: normalize_row_def Let_def py_min_capped)

section \<open>Rate normalization\<close>

text \<open>
  Claim C5, as amended. \<open>clean_rate\<close> is idempotent on the percentages it returns that are
  not strictly between 0 and 1 and were not read from a text ending in a percent sign: such
  a value has at most six decimals, and every number with at most six decimals that is not
  strictly between 0 and 1 is returned unchanged. In particular \<open>clean_rate(36.0) = 36.0\<close>
  on repeated application, and \<open>clean_rate(0.36) = 36.0\<close>.
\<close>

theorem clean_rate_idempotent_outside_unit:
  "(py_round 6 r = r \<and> \<not> (0 < r \<and> r < 1) \<longrightarrow> clean_rate (PFloat (Fin r)) = Fin r)
   \<and> (clean_rate v = Fin r \<and> \<not> ends_with_percent v \<longrightarrow> py_round 6 r = r)
   \<and> clean_rate (PFloat (Fin 36)) = Fin 36
   \<and> clean_rate (PFloat (clean_rate (PFloat (Fin 36)))) = Fin 36
   \<and> clean_rate (PFloat (Fin (36 / 100))) = Fin 36"
proof -
  have e: "py_round 6 36 = 36" using py_round_of_int [of 6 36] by simp
  have a: "clean_rate (PFloat (Fin 36)) = Fin 36"
    by (rule clean_rate_fixed) (simp_all add: e)
  have b: "clean_rate (PFloat (Fin (36 / 100))) = Fin 36"
    using e by (simp add: scale_rate_def)
  from a b clean_rate_fixed clean_rate_bare_rounded show ?thesis by auto
qed

theorem clean_rate_idempotent_witness:
  "clean_rate (PStr ''12.5'') = Fin (25 / 2) \<and> clean_rate (PFloat (Fin (25 / 2))) = Fin (25 / 2)"
proof -
  have v: "clean_rate (PStr ''12.5'') = Fin (25 / 2)" by code_simp
  have p: "\<not> ends_with_percent (PStr ''12.5'')" by code_simp
  note T = clean_rate_idempotent_outside_unit [of "25 / 2" "PStr ''12.5''"]
  from T v p have "py_round 6 (25 / 2) = 25 / 2" by blast
  with T have "clean_rate (PFloat (Fin (25 / 2))) = Fin (25 / 2)" by simp
  with v show ?thesis by simp
qed

text \<open>
  The claim as stated fails: \<open>0.5\<close> is in the image of \<open>clean_rate\<close> (it is
  \<open>clean_rate(0.005)\<close>), and \<open>clean_rate(0.5) = 50.0\<close>, since every bare number strictly
  between 0 and 1 is taken for a fraction.
\<close>

theorem clean_rate_not_idempotent:
  "clean_rate (PFloat (Fin (1 / 200))) = Fin (1 / 2)
   \<and> clean_rate (PFloat (clean_rate (PFloat (Fin (1 / 200))))) = Fin 50
   \<and> clean_rate (PFloat (clean_rate (PFloat (Fin (1 / 200))))) \<noteq> clean_rate (PFloat (Fin (1 / 200)))"
  by code_simp

section \<open>The click-through rate of a normalized record\<close>




section \<open>The range of the derived rates\<close>

text \<open>
  Claim C2 says that \<open>ctr\<close> and \<open>engagement_rate\<close> of every normalized record lie in
  \<open>[0, 100]\<close>. The code at a row with 2 impressions and 5 clicks and no CTR column gives
  \<open>ctr = 250.0\<close>; so does a CTR cell \<open>250%\<close>, which \<open>clean_rate\<close> returns as \<open>250.0\<close>;
  and with no impressions an engagement-rate cell \<open>-5\<close> gives \<open>engagement_rate = -5.0\<close>.
  Only the engagement rate is capped, and only from above.
\<close>

theorem normalize_row_ctr_above_100:
  "ctr (normalize_row \<lparr>impressions_cell = Some 2, views_cell = None, clicks_cell = Some 5,
          ctr_cell = None, likes_cell = Some 0, comments_cell = Some 0, reposts_cell = Some 0,
          engagement_rate_cell = None\<rparr>) = Fin 250
   \<and> \<not> fl_le (Fin 250) (Fin 100)
   \<and> clean_rate (PStr ''250%'') = Fin 250
   \<and> ctr (normalize_row \<lparr>impressions_cell = Some 1000, views_cell = None, clicks_cell = Some 5,
          ctr_cell = Some (PStr ''250%''), likes_cell = Some 0, comments_cell = Some 0,
          reposts_cell = Some 0, engagement_rate_cell = None\<rparr>) = Fin 250
   \<and> engagement_rate (normalize_row \<lparr>impressions_cell = Some 0, views_cell = None,
          clicks_cell = Some 0, ctr_cell = None, likes_cell = Some 0, comments_cell = Some 0,
          reposts_cell = Some 0, engagement_rate_cell = Some (PStr ''-5'')\<rparr>) = Fin (- 5)
   \<and> \<not> fl_le (Fin 0) (Fin (- 5))"
  by code_simp

text \<open>
  Claim C3 says that \<open>engagement_rate\<close> is at most 100 for every record. The code at a row
  with no impressions whose engagement-rate cell is the text \<open>nan\<close> gives
  \<open>engagement_rate = min(nan, 100.0) = nan\<close>, which is not at most 100.
\<close>

theorem normalize_row_engagement_rate_nan:
  "engagement_rate (normalize_row \<lparr>impressions_cell = Some 0, views_cell = None,
          clicks_cell = Some 0, ctr_cell = None, likes_cell = Some 0, comments_cell = Some 0,
          reposts_cell = Some 0, engagement_rate_cell = Some (PStr ''nan'')\<rparr>) = NaN
   \<and> \<not> fl_le NaN (Fin 100)"
  by code_simp

section \<open>Facts about the ambiguous-date resolver\<close>

lemma likely_ambiguous_nonempty: "likely_ambiguous s \<Longrightarrow> py_strip s \<noteq> []"
  by (auto simp: likely_ambiguous_def Let_def split: if_splits)

lemma resolve_row_with_reference:
  assumes "likely_ambiguous s"
  shows "resolve_row s (Some (Ts a)) (Some (Ts b)) (Some (Ts c)) camp_mdy utc_year
           = Some (if \<bar>a - c\<bar> \<le> \<bar>b - c\<bar> then Dmy else Mdy)"
  using assms likely_ambiguous_nonempty [OF assms]
  by (simp add: resolve_row_def choose_interpretation_def py_or_def)

lemma resolve_row_without_reference:
  assumes "likely_ambiguous s"
  shows "resolve_row s (Some a) (Some b) None None utc_year
           = Some (let ok_dmy = (ts_le (datetime_ts 2015 1 1) a \<and> ts_le a (datetime_ts (utc_year + 1) 12 31));
                       ok_mdy = (ts_le (datetime_ts 2015 1 1) b \<and> ts_le b (datetime_ts (utc_year + 1) 12 31))
                   in if ok_mdy \<and> \<not> ok_dmy then Mdy else Dmy)"
  using assms likely_ambiguous_nonempty [OF assms]
  by (auto simp: resolve_row_def choose_interpretation_def py_or_def Let_def)

lemma resolve_row_reference_example:
  "likely_ambiguous ''08/06/2025''
   \<and> resolve_row ''08/06/2025'' (Some (datetime_ts 2025 6 8)) (Some (datetime_ts 2025 8 6))
        (Some (datetime_ts 2025 6 9)) (Some (datetime_ts 2025 6 9)) 2026 = Some Dmy
   \<and> resolve_row ''08/06/2025'' (Some (datetime_ts 2025 6 8)) (Some (datetime_ts 2025 8 6))
        (Some (datetime_ts 2025 9 6)) (Some (datetime_ts 2025 6 9)) 2026 = Some Mdy"
  by code_simp

section \<open>A missing reference date\<close>

text \<open>
  Claim C7 says that without a reference date the resolver takes the interpretation inside
  the plausible window and defaults to day-first. The code at the date text \<open>08/06/2025\<close>
  with an empty campaign-start cell does not: the text of the empty cell parses to \<open>NaT\<close>,
  which is not \<open>None\<close>, both distances are \<open>nan\<close>, the comparison is false and the row is
  reported as month-first. With no campaign value at all (\<open>None\<close>) the same date resolves
  to day-first, as the claim says; with a parsed reference the nearer interpretation is
  chosen (\<open>resolve_row_with_reference\<close>).
\<close>

theorem resolve_row_empty_reference:
  "likely_ambiguous ''08/06/2025''
   \<and> resolve_row ''08/06/2025'' (Some (datetime_ts 2025 6 8)) (Some (datetime_ts 2025 8 6))
        (Some NaT) (Some NaT) 2026 = Some Mdy
   \<and> resolve_row ''08/06/2025'' (Some (datetime_ts 2025 6 8)) (Some (datetime_ts 2025 8 6))
        None None 2026 = Some Dmy"
  by code_simp

section \<open>Facts about the format loader\<close>

declare load_posts_df_robust.simps [simp del]

lemma try_encodings_result:
  "try_encodings w p encs = empty_frame \<or> from_reader w (try_encodings w p encs)"
  by (induction encs) (auto simp: from_reader_def split: sum.splits)

lemma read_xlsx_sheet_result: "read_xlsx_sheet w p = Inr df \<Longrightarrow> from_reader w df"
  by (auto simp: read_xlsx_sheet_def Let_def from_reader_def split: sum.splits if_splits)

lemma load_xlsx_raises:
  assumes "py_lower (path_suffix p) = ''.xlsx''" "is_zipfile w p = Inl e"
  shows "load_posts_df_robust w p = Inl e"
  using assms by (subst load_posts_df_robust.simps) (simp add: Let_def)

lemma load_plain:
  assumes "py_lower (path_suffix p) \<noteq> ''.zip''"
    and "py_lower (path_suffix p) = ''.xlsx'' \<Longrightarrow> \<exists>b. is_zipfile w p = Inr b"
  shows "\<exists>df. load_posts_df_robust w p = Inr df \<and> (df = empty_frame \<or> from_reader w df)"
proof -
  have x: "from_reader w df" if "read_xls_posts_via_xlrd w p = Inr df" for df
    using that by (auto simp: from_reader_def)
  have c: "from_reader w df" if "read_csv w p None = Inr df" for df
    using that by (auto simp: from_reader_def)
  from assms x c try_encodings_result [of w p ENCODINGS] read_xlsx_sheet_result [of w p]
  show ?thesis
    by (subst load_posts_df_robust.simps) (auto simp: Let_def split: sum.splits)
qed

lemma load_plain_cases:
  assumes "py_lower (path_suffix p) \<noteq> ''.zip''"
  shows "(\<exists>df. load_posts_df_robust w p = Inr df \<and> (df = empty_frame \<or> from_reader w df))
       \<or> (\<exists>e. py_lower (path_suffix p) = ''.xlsx'' \<and> is_zipfile w p = Inl e
               \<and> load_posts_df_robust w p = Inl e)"
proof (cases "py_lower (path_suffix p) = ''.xlsx'' \<and> (\<exists>e. is_zipfile w p = Inl e)")
  case True
  then show ?thesis using load_xlsx_raises [of p w] by blast
next
  case False
  then have "py_lower (path_suffix p) = ''.xlsx'' \<Longrightarrow> \<exists>b. is_zipfile w p = Inr b"
    by (cases "is_zipfile w p") auto
  from load_plain [OF assms this] show ?thesis by blast
qed

lemma load_zip:
  assumes "py_lower (path_suffix p) = ''.zip''"
  shows "\<exists>df. load_posts_df_robust w p = Inr df \<and> (df = empty_frame \<or> from_reader w df)"
proof (cases "zip_namelist w p")
  case (Inl e)
  with assms show ?thesis
    by (simp add: load_posts_df_robust.simps [of w p] Let_def)
next
  case (Inr members)
  show ?thesis
  proof (cases "pick_target members")
    case None
    with assms Inr show ?thesis
      by (simp add: load_posts_df_robust.simps [of w p] Let_def)
  next
    case (Some target)
    define inner where "inner = path_join (extract_dir_of p) target"
    have nz: "py_lower (path_suffix inner) \<noteq> ''.zip''"
      unfolding inner_def
      by (rule inner_path_not_zip, rule pick_target_is_posts_file, rule Some)
    from load_plain_cases [OF nz, of w] consider
        df where "load_posts_df_robust w inner = Inr df" "df = empty_frame \<or> from_reader w df"
      | e where "load_posts_df_robust w inner = Inl e"
      by blast
    then show ?thesis
    proof cases
      case 1
      have "load_posts_df_robust w p = Inr df \<or> load_posts_df_robust w p = Inr empty_frame"
        using assms Inr Some 1(1)
        by (simp add: load_posts_df_robust.simps [of w p] Let_def inner_def [symmetric]
              split: sum.splits)
      with 1(2) show ?thesis by auto
    next
      case 2
      have "load_posts_df_robust w p = Inr empty_frame"
        using assms Inr Some 2
        by (simp add: load_posts_df_robust.simps [of w p] Let_def inner_def [symmetric]
              split: sum.splits)
      then show ?thesis by simp
    qed
  qed
qed

lemma load_returns_unless_is_zipfile_raises:
  "(\<exists>df. load_posts_df_robust w p = Inr df \<and> (df = empty_frame \<or> from_reader w df))
   \<or> (\<exists>e. py_lower (path_suffix p) = ''.xlsx'' \<and> is_zipfile w p = Inl e
           \<and> load_posts_df_robust w p = Inl e)"
  using load_zip [of p w] load_plain_cases [of p w] by blast

lemma load_posts_df_robust_zip_example:
  "load_posts_df_robust
     \<lparr>zip_namelist = (\<lambda>p. Inr [''Notes.txt'', ''Summary.xlsx'', ''Posts_Q1.csv'']),
      zip_mkdir = (\<lambda>p. Inr ()), zip_extract = (\<lambda>p m d. Inr ()), zip_close = (\<lambda>p. Inr ()),
      is_zipfile = (\<lambda>p. Inr True), excel_sheet_names = (\<lambda>p. Inr [''Sheet1'']),
      read_excel = (\<lambda>p s. Inl (LibError ''BadZipFile'')),
      read_csv = (\<lambda>p enc. if p = ''exports/unzipped_posts/Posts_Q1.csv'' \<and> enc = Some ''cp1252''
                           then Inr (Frame [''Post Title'', ''Impressions''] [[PStr ''Hello'', PInt 10]])
                           else Inl (LibError ''UnicodeDecodeError'')),
      read_xls_posts_via_xlrd = (\<lambda>p. Inl (LibError ''XLRDError''))\<rparr>
     ''exports/posts.zip''
   = Inr (Frame [''Post Title'', ''Impressions''] [[PStr ''Hello'', PInt 10]])"
  by code_simp

lemma load_posts_df_robust_zip_caught:
  "load_posts_df_robust
     \<lparr>zip_namelist = (\<lambda>p. Inr [''Notes.txt'', ''Posts_Q1.xlsx'']),
      zip_mkdir = (\<lambda>p. Inr ()), zip_extract = (\<lambda>p m d. Inr ()), zip_close = (\<lambda>p. Inr ()),
      is_zipfile = (\<lambda>p. Inl (LibError ''BadZipFile'')), excel_sheet_names = (\<lambda>p. Inr [''Sheet1'']),
      read_excel = (\<lambda>p s. Inl (LibError ''BadZipFile'')),
      read_csv = (\<lambda>p enc. Inl (LibError ''UnicodeDecodeError'')),
      read_xls_posts_via_xlrd = (\<lambda>p. Inl (LibError ''XLRDError''))\<rparr>
     ''exports/posts.zip''
   = Inr empty_frame"
  by code_simp

section \<open>The format loader can raise\<close>

text \<open>
  Claim C8 says that the loader returns a grid for every path and never raises. Every
  library call of the loader is inside a \<open>try\<close>, except \<open>zipfile.is_zipfile\<close> on line 227:
  for a path with the suffix \<open>.xlsx\<close> on which that call raises (\<open>BadZipFile\<close> on a damaged
  end-of-archive record, \<open>ValueError\<close> on a path with a null character) the loader raises
  too, whatever the other calls would do. Everywhere else the claim holds
  (\<open>load_returns_unless_is_zipfile_raises\<close>): the result is the empty grid or a grid that a
  reader returned, also for such a file inside an archive, where the archive branch catches
  the exception (\<open>load_zip\<close>).
\<close>

theorem load_posts_df_robust_raises:
  "load_posts_df_robust (w\<lparr>is_zipfile := \<lambda>p. Inl (LibError ''BadZipFile'')\<rparr>) ''exports/posts.xlsx''
     = Inl (LibError ''BadZipFile'')"
proof -
  have "py_lower (path_suffix ''exports/posts.xlsx'') = ''.xlsx''" by code_simp
  then show ?thesis by (rule load_xlsx_raises) simp
qed

end
